theory Spec2Isabelle
  imports Complex_Main
begin

section \<open>Python values shared by both source files\<close>

text \<open>
  The exceptions the two source files can raise. Python reports a zero divisor of
  \<^verbatim>\<open>%\<close> on integers and of \<^verbatim>\<open>/\<close> on floats by the same class,
  \<^verbatim>\<open>ZeroDivisionError\<close>, with different messages; the operation is kept as an
  argument so that the two places stay apart.
\<close>

datatype operation = Modulo | FloatDivision

datatype error =
    NotImplementedError
  | IndexError
  | ValueError
  | ZeroDivisionError operation

text \<open>
  Modelled from the spec: \<^verbatim>\<open>pacai.core.directions.Directions\<close> is not among the
  sources; the spec calls it a fixed direction vocabulary with a distinguished no-op action
  (\<^verbatim>\<open>Directions.STOP\<close>).
\<close>

datatype action = NORTH | SOUTH | EAST | WEST | STOP

type_synonym position = "int \<times> int"

text \<open>
  Modelled from the spec: \<^verbatim>\<open>pacai.core.distance.manhattan\<close> is not among the sources;
  the spec names it the Manhattan distance between two grid positions.
\<close>

definition manhattan :: "position \<Rightarrow> position \<Rightarrow> int" where
  "manhattan p q = \<bar>fst p - fst q\<bar> + \<bar>snd p - snd q\<bar>"

section \<open>search.py\<close>

text \<open>
  A search problem offers \<^verbatim>\<open>startingState()\<close>, \<^verbatim>\<open>isGoal(state)\<close> and
  \<^verbatim>\<open>successorStates(state)\<close>, the latter a list of (state, action, cost) triples.
\<close>

record ('s, 'a) problem =
  startingState :: 's
  isGoal :: "'s \<Rightarrow> bool"
  successorStates :: "'s \<Rightarrow> ('s \<times> 'a \<times> int) list"

text \<open>The three strategies whose body is \<^verbatim>\<open>raise NotImplementedError()\<close>.\<close>

definition depthFirstSearch :: "('s, 'a) problem \<Rightarrow> error + 'a list option" where
  "depthFirstSearch problem = Inl NotImplementedError"

definition uniformCostSearch :: "('s, 'a) problem \<Rightarrow> error + 'a list option" where
  "uniformCostSearch problem = Inl NotImplementedError"

definition aStarSearch ::
  "('s, 'a) problem \<Rightarrow> ('s \<Rightarrow> ('s, 'a) problem \<Rightarrow> int) \<Rightarrow> error + 'a list option" where
  "aStarSearch problem heuristic = Inl NotImplementedError"

text \<open>
  \<^verbatim>\<open>breadthFirstSearch\<close>. A node is the triple (state, actions from the start to the
  state, cost), the cost always 0.
\<close>

type_synonym ('s, 'a) node = "'s \<times> 'a list \<times> int"

definition childNode :: "('s, 'a) node \<Rightarrow> 's \<times> 'a \<times> int \<Rightarrow> ('s, 'a) node" where
  "childNode node child = (fst child, fst (snd node) @ [fst (snd child)], 0)"

text \<open>
  Modelled from the spec: \<^verbatim>\<open>pacai.util.queue.Queue\<close> is not among the sources; the
  spec calls the frontier FIFO, so the frontier is a list whose head is the oldest node,
  \<^verbatim>\<open>push\<close> adds at the end and \<^verbatim>\<open>pop\<close> takes the head.

  The \<^verbatim>\<open>while\<close> loop may run forever: \<open>None\<close> stands for a loop that does not
  end, \<open>Some None\<close> for the \<^verbatim>\<open>None\<close> that Python returns, and
  \<open>Some (Some actions)\<close> for a path.
\<close>

partial_function (option) bfs_loop ::
  "('s, 'a) problem \<Rightarrow> ('s, 'a) node list \<Rightarrow> 's list \<Rightarrow> 'a list option option" where
  "bfs_loop problem frontier reached =
     (case frontier of
        [] \<Rightarrow> Some None
      | node # frontier' \<Rightarrow>
          if fst node \<in> set reached then bfs_loop problem frontier' reached
          else if isGoal problem (fst node) then Some (Some (fst (snd node)))
          else
            bfs_loop problem
              (frontier' @ map (childNode node) (successorStates problem (fst node)))
              (reached @ [fst node]))"

declare bfs_loop.simps [code]

definition breadthFirstSearch :: "('s, 'a) problem \<Rightarrow> 'a list option option" where
  "breadthFirstSearch problem =
     (if isGoal problem (startingState problem) then Some (Some [])
      else bfs_loop problem [(startingState problem, [], 0)] [])"

text \<open>
  The paths of a problem: \<open>path problem s actions t\<close> holds when the actions label a
  chain of successor steps from \<open>s\<close> to \<open>t\<close>.
\<close>

inductive path :: "('s, 'a) problem \<Rightarrow> 's \<Rightarrow> 'a list \<Rightarrow> 's \<Rightarrow> bool"
  for problem :: "('s, 'a) problem" and s :: 's where
  path_nil: "path problem s [] s"
| path_snoc: "path problem s actions u \<Longrightarrow> (t, a, c) \<in> set (successorStates problem u)
     \<Longrightarrow> path problem s (actions @ [a]) t"

text \<open>
  The loop invariant of \<open>bfs_loop\<close>. The level of a frontier is the length of the
  actions of its oldest node. In the frontier every node holds a path from the start to its
  state, the lengths grow along the queue and exceed the level by one at most. No reached
  state is a goal; the start and the successors of the reached states are reached or wait
  in the frontier; every state with a path shorter than the level is reached, and every
  state with a path as long as the level is reached or waits in the frontier at that
  length.
\<close>

definition level :: "('s, 'a) node list \<Rightarrow> nat" where
  "level frontier = (case frontier of [] \<Rightarrow> 0 | node # _ \<Rightarrow> length (fst (snd node)))"

definition bfs_inv :: "('s, 'a) problem \<Rightarrow> ('s, 'a) node list \<Rightarrow> 's list \<Rightarrow> bool" where
  "bfs_inv problem frontier reached \<longleftrightarrow>
     (\<forall>node\<in>set frontier. path problem (startingState problem) (fst (snd node)) (fst node))
   \<and> sorted (map (\<lambda>node. length (fst (snd node))) frontier)
   \<and> (\<forall>node\<in>set frontier. length (fst (snd node)) \<le> Suc (level frontier))
   \<and> (\<forall>r\<in>set reached. \<not> isGoal problem r)
   \<and> startingState problem \<in> set reached \<union> fst ` set frontier
   \<and> (\<forall>r\<in>set reached. \<forall>child\<in>set (successorStates problem r).
         fst child \<in> set reached \<union> fst ` set frontier)
   \<and> (\<forall>actions t. path problem (startingState problem) actions t
         \<and> length actions < level frontier \<longrightarrow> t \<in> set reached)
   \<and> (\<forall>actions t. path problem (startingState problem) actions t
         \<and> length actions = level frontier \<and> frontier \<noteq> [] \<longrightarrow>
         t \<in> set reached
         \<or> (\<exists>node\<in>set frontier. fst node = t \<and> length (fst (snd node)) = level frontier))"

text \<open>
  What the search is to return: a path to a goal that no path to a goal is shorter than, or
  \<^verbatim>\<open>None\<close> when no path from the start ends in a goal.
\<close>

definition bfs_post :: "('s, 'a) problem \<Rightarrow> 'a list option option \<Rightarrow> bool" where
  "bfs_post P result \<longleftrightarrow>
     (\<exists>acts g. result = Some (Some acts) \<and> path P (startingState P) acts g \<and> isGoal P g
        \<and> (\<forall>acts' g'. path P (startingState P) acts' g' \<and> isGoal P g'
              \<longrightarrow> length acts \<le> length acts'))
     \<or> (result = Some None \<and> (\<forall>acts g. path P (startingState P) acts g \<longrightarrow> \<not> isGoal P g))"

section \<open>multiagents.py: the evaluators\<close>

text \<open>
  What the two evaluators read from a Pacman game state: \<^verbatim>\<open>getPacmanPosition()\<close>,
  \<^verbatim>\<open>getFood().asList()\<close>, the \<^verbatim>\<open>_position\<close> of every entry of
  \<^verbatim>\<open>getGhostStates()\<close>, \<^verbatim>\<open>getCapsules()\<close> and \<^verbatim>\<open>getScore()\<close>.
\<close>

record pacman_state =
  getPacmanPosition :: position
  getFood :: "position list"
  getGhostStates :: "position list"
  getCapsules :: "position list"
  getScore :: int

text \<open>\<^verbatim>\<open>xs[0]\<close> raises on the empty list, and so does \<^verbatim>\<open>min(xs)\<close>.\<close>

definition first_item :: "'a list \<Rightarrow> error + 'a" where
  "first_item xs = (case xs of [] \<Rightarrow> Inl IndexError | x # _ \<Rightarrow> Inr x)"

definition py_min :: "int list \<Rightarrow> error + int" where
  "py_min xs = (case xs of [] \<Rightarrow> Inl ValueError | x # rest \<Rightarrow> Inr (fold min rest x))"

text \<open>
  The loop \<^verbatim>\<open>for ghostDistance in ghostDistances: if ghostDistance < k: eval = -999999\<close>
  of both evaluators, with the threshold \<open>k\<close> as the source writes it at each place.
\<close>

fun avoid_ghosts :: "int \<Rightarrow> int list \<Rightarrow> int \<Rightarrow> int" where
  "avoid_ghosts k [] eval = eval"
| "avoid_ghosts k (ghostDistance # rest) eval =
     avoid_ghosts k rest (if ghostDistance < k then - 999999 else eval)"

text \<open>
  \<^verbatim>\<open>ReflexAgent.evaluationFunction\<close>. The successor generation of the framework
  (\<^verbatim>\<open>generatePacmanSuccessor\<close>) is a parameter. A food item is a pair of coordinates,
  which Python takes for true, so the test \<^verbatim>\<open>if food\<close> keeps every item.
\<close>

definition evaluationFunction ::
  "(pacman_state \<Rightarrow> action \<Rightarrow> pacman_state) \<Rightarrow> pacman_state \<Rightarrow> action \<Rightarrow> error + int" where
  "evaluationFunction generatePacmanSuccessor currentGameState act =
     (let successorGameState = generatePacmanSuccessor currentGameState act;
          newPosition = getPacmanPosition successorGameState;
          oldFood = getFood currentGameState;
          newGhostStates = getGhostStates successorGameState;
          ghostDistances = map (manhattan newPosition) newGhostStates;
          foodDistances = sort (map (manhattan newPosition) oldFood)
      in case first_item foodDistances of
           Inl e \<Rightarrow> Inl e
         | Inr d \<Rightarrow> Inr (avoid_ghosts 2 ghostDistances (- d)))"

text \<open>\<^verbatim>\<open>betterEvaluationFunction\<close>.\<close>

definition betterEvaluationFunction :: "pacman_state \<Rightarrow> error + int" where
  "betterEvaluationFunction currentGameState =
     (let position = getPacmanPosition currentGameState;
          foodList = getFood currentGameState;
          ghosts = getGhostStates currentGameState;
          capsules = getCapsules currentGameState;
          ghostDistances = map (manhattan position) ghosts
      in if foodList = [] then Inr (getScore currentGameState)
         else
           let capsuleDistances = map (manhattan position) capsules;
               foodDistances = map (manhattan position) foodList;
               distances = (if capsuleDistances \<noteq> [] then capsuleDistances else foodDistances)
           in case py_min distances of
                Inl e \<Rightarrow> Inl e
              | Inr m \<Rightarrow>
                  Inr (getScore currentGameState + avoid_ghosts 1 ghostDistances (- m)))"

section \<open>multiagents.py: the adversarial search agents\<close>

subsection \<open>Numbers with the two infinities\<close>

text \<open>
  The agents compare the values of the evaluation function with \<^verbatim>\<open>inf\<close> and
  \<^verbatim>\<open>-inf\<close>. A value is a finite number, kept exact, or one of the two infinities; an
  evaluation function may return any of them. Not-a-number is left out.
\<close>

datatype score = NegInf | Fin rat | PosInf

instantiation score :: linorder
begin

fun less_eq_score :: "score \<Rightarrow> score \<Rightarrow> bool" where
  "less_eq_score NegInf y = True"
| "less_eq_score (Fin x) NegInf = False"
| "less_eq_score (Fin x) (Fin y) = (x \<le> y)"
| "less_eq_score (Fin x) PosInf = True"
| "less_eq_score PosInf PosInf = True"
| "less_eq_score PosInf y = False"

definition less_score :: "score \<Rightarrow> score \<Rightarrow> bool" where
  "less_score x y = (x \<le> y \<and> \<not> y \<le> x)"

instance
proof
  fix x y z :: score
  show "(x < y) = (x \<le> y \<and> \<not> y \<le> x)"
    by (simp add: less_score_def)
  show "x \<le> x"
    by (cases x) simp_all
  show "x \<le> y \<Longrightarrow> y \<le> z \<Longrightarrow> x \<le> z"
    by (cases x; cases y; cases z) simp_all
  show "x \<le> y \<Longrightarrow> y \<le> x \<Longrightarrow> x = y"
    by (cases x; cases y) simp_all
  show "x \<le> y \<or> y \<le> x"
    by (cases x; cases y) auto
qed

end

subsection \<open>Game states, agents and runs\<close>

text \<open>
  What an agent of \<^verbatim>\<open>MultiAgentSearchAgent\<close> consults: the three methods of a game
  state it calls (\<^verbatim>\<open>getLegalActions(agent)\<close>, \<^verbatim>\<open>generateSuccessor(agent, action)\<close>,
  \<^verbatim>\<open>getNumAgents()\<close>), and its own \<^verbatim>\<open>getTreeDepth()\<close> and
  \<^verbatim>\<open>_evaluationFunction\<close>. The type \<open>'s\<close> is the game state, \<open>'v\<close> the type of
  the values of the evaluation function.
\<close>

record ('s, 'v) agent =
  getLegalActions :: "'s \<Rightarrow> nat \<Rightarrow> action list"
  generateSuccessor :: "'s \<Rightarrow> nat \<Rightarrow> action \<Rightarrow> 's"
  getNumAgents :: "'s \<Rightarrow> nat"
  getTreeDepth :: int
  getEvaluationFunction :: "'s \<Rightarrow> 'v"

text \<open>
  A run records what it asked of the framework: every call of the evaluation function and
  every call of \<^verbatim>\<open>generateSuccessor\<close>, in the order of the calls.
\<close>

datatype 's event = Evaluated 's | Expanded 's nat action

fun is_evaluation :: "'s event \<Rightarrow> bool" where
  "is_evaluation (Evaluated s) = True"
| "is_evaluation (Expanded s agent a) = False"

definition evaluation_calls :: "'s event list \<Rightarrow> nat" where
  "evaluation_calls trace = length (filter is_evaluation trace)"


text \<open>
  The outcome of a call: \<open>None\<close> when the recursion is deeper than the fuel allows,
  \<open>Some (Inl e)\<close> when the exception \<open>e\<close> is raised, \<open>Some (Inr (r, trace))\<close> when
  it returns \<open>r\<close> after the events \<open>trace\<close>.
\<close>

type_synonym ('s, 'r) run = "(error + 'r \<times> 's event list) option"

definition logged :: "'s event list \<Rightarrow> ('s, 'r) run \<Rightarrow> ('s, 'r) run" where
  "logged earlier r =
     (case r of
        None \<Rightarrow> None
      | Some (Inl e) \<Rightarrow> Some (Inl e)
      | Some (Inr (x, trace)) \<Rightarrow> Some (Inr (x, earlier @ trace)))"

text \<open>The assignment \<^verbatim>\<open>value, _ = ...\<close> keeps the value of the pair returned.\<close>

definition value_of :: "('s, 'v \<times> action option) run \<Rightarrow> ('s, 'v) run" where
  "value_of r =
     (case r of
        None \<Rightarrow> None
      | Some (Inl e) \<Rightarrow> Some (Inl e)
      | Some (Inr ((v, a), trace)) \<Rightarrow> Some (Inr (v, trace)))"

text \<open>
  \<^verbatim>\<open>if Directions.STOP in legalActions: legalActions.remove(Directions.STOP)\<close>:
  \<^verbatim>\<open>list.remove\<close> deletes the first occurrence only.
\<close>

definition removeStop :: "action list \<Rightarrow> action list" where
  "removeStop legalActions =
     (if STOP \<in> set legalActions then remove1 STOP legalActions else legalActions)"

text \<open>\<^verbatim>\<open>(agent + 1) % gameState.getNumAgents()\<close>.\<close>

definition nextAgent_of :: "nat \<Rightarrow> nat \<Rightarrow> error + nat" where
  "nextAgent_of agent numAgents =
     (if numAgents = 0 then Inl (ZeroDivisionError Modulo)
      else Inr ((agent + 1) mod numAgents))"

subsection \<open>MinimaxAgent\<close>

text \<open>
  The two \<^verbatim>\<open>for action in legalActions\<close> loops. The argument \<open>branch\<close> is the first
  half of the loop body, which yields \<open>value\<close> for an action.
\<close>

fun minimax_max_loop ::
  "(action \<Rightarrow> ('s, score) run) \<Rightarrow> action list \<Rightarrow> score \<Rightarrow> action option
     \<Rightarrow> ('s, score \<times> action option) run" where
  "minimax_max_loop branch [] bestValue bestAction = Some (Inr ((bestValue, bestAction), []))"
| "minimax_max_loop branch (action # rest) bestValue bestAction =
     (case branch action of
        None \<Rightarrow> None
      | Some (Inl e) \<Rightarrow> Some (Inl e)
      | Some (Inr (value, trace)) \<Rightarrow>
          logged trace
            (if value > bestValue then minimax_max_loop branch rest value (Some action)
             else minimax_max_loop branch rest bestValue bestAction))"

fun minimax_min_loop ::
  "(action \<Rightarrow> ('s, score) run) \<Rightarrow> action list \<Rightarrow> score \<Rightarrow> action option
     \<Rightarrow> ('s, score \<times> action option) run" where
  "minimax_min_loop branch [] bestValue bestAction = Some (Inr ((bestValue, bestAction), []))"
| "minimax_min_loop branch (action # rest) bestValue bestAction =
     (case branch action of
        None \<Rightarrow> None
      | Some (Inl e) \<Rightarrow> Some (Inl e)
      | Some (Inr (value, trace)) \<Rightarrow>
          logged trace
            (if value < bestValue then minimax_min_loop branch rest value (Some action)
             else minimax_min_loop branch rest bestValue bestAction))"

text \<open>
  \<^verbatim>\<open>MinimaxAgent.maxValue\<close> and \<^verbatim>\<open>MinimaxAgent.minValue\<close>. The first argument is
  the fuel: the number of nested calls allowed.
\<close>

fun MinimaxAgent_maxValue ::
  "nat \<Rightarrow> ('s, score) agent \<Rightarrow> 's \<Rightarrow> nat \<Rightarrow> int \<Rightarrow> ('s, score \<times> action option) run"
and MinimaxAgent_minValue ::
  "nat \<Rightarrow> ('s, score) agent \<Rightarrow> 's \<Rightarrow> nat \<Rightarrow> int \<Rightarrow> ('s, score \<times> action option) run"
where
  "MinimaxAgent_maxValue 0 self gameState agent depth = None"
| "MinimaxAgent_maxValue (Suc fuel) self gameState agent depth =
     (let legalActions = removeStop (getLegalActions self gameState agent) in
      if depth = getTreeDepth self \<or> legalActions = [] then
        Some (Inr ((getEvaluationFunction self gameState, None), [Evaluated gameState]))
      else
        minimax_max_loop
          (\<lambda>action.
             let successorGameState = generateSuccessor self gameState agent action in
             case nextAgent_of agent (getNumAgents self gameState) of
               Inl e \<Rightarrow> Some (Inl e)
             | Inr nextAgent \<Rightarrow>
                 logged [Expanded gameState agent action]
                   (value_of
                      (if nextAgent = 0 then
                         MinimaxAgent_maxValue fuel self successorGameState nextAgent (depth + 1)
                       else
                         MinimaxAgent_minValue fuel self successorGameState nextAgent depth)))
          legalActions NegInf None)"
| "MinimaxAgent_minValue 0 self gameState agent depth = None"
| "MinimaxAgent_minValue (Suc fuel) self gameState agent depth =
     (let legalActions = removeStop (getLegalActions self gameState agent) in
      if depth = getTreeDepth self \<or> legalActions = [] then
        Some (Inr ((getEvaluationFunction self gameState, None), [Evaluated gameState]))
      else
        minimax_min_loop
          (\<lambda>action.
             let successorGameState = generateSuccessor self gameState agent action in
             case nextAgent_of agent (getNumAgents self gameState) of
               Inl e \<Rightarrow> Some (Inl e)
             | Inr nextAgent \<Rightarrow>
                 logged [Expanded gameState agent action]
                   (value_of
                      (if nextAgent = 0 then
                         MinimaxAgent_maxValue fuel self successorGameState nextAgent (depth + 1)
                       else
                         MinimaxAgent_minValue fuel self successorGameState nextAgent depth)))
          legalActions PosInf None)"

text \<open>\<^verbatim>\<open>MinimaxAgent.getAction\<close>: \<^verbatim>\<open>_, action = self.maxValue(gameState, 0, 0)\<close>.\<close>

definition action_of :: "('s, 'v \<times> action option) run \<Rightarrow> ('s, action option) run" where
  "action_of r =
     (case r of
        None \<Rightarrow> None
      | Some (Inl e) \<Rightarrow> Some (Inl e)
      | Some (Inr ((v, a), trace)) \<Rightarrow> Some (Inr (a, trace)))"

definition MinimaxAgent_getAction ::
  "nat \<Rightarrow> ('s, score) agent \<Rightarrow> 's \<Rightarrow> ('s, action option) run" where
  "MinimaxAgent_getAction fuel self gameState =
     action_of (MinimaxAgent_maxValue fuel self gameState 0 0)"

subsection \<open>AlphaBetaAgent\<close>

fun alphabeta_max_loop ::
  "(action \<Rightarrow> score \<Rightarrow> score \<Rightarrow> ('s, score) run) \<Rightarrow> action list \<Rightarrow> score \<Rightarrow> action option
     \<Rightarrow> score \<Rightarrow> score \<Rightarrow> ('s, score \<times> action option) run" where
  "alphabeta_max_loop branch [] bestValue bestAction alpha beta =
     Some (Inr ((bestValue, bestAction), []))"
| "alphabeta_max_loop branch (action # rest) bestValue bestAction alpha beta =
     (case branch action alpha beta of
        None \<Rightarrow> None
      | Some (Inl e) \<Rightarrow> Some (Inl e)
      | Some (Inr (value, trace)) \<Rightarrow>
          logged trace
            (if value > bestValue then
               (if value \<ge> beta then Some (Inr ((value, Some action), []))
                else alphabeta_max_loop branch rest value (Some action) (max alpha value) beta)
             else
               (if value \<ge> beta then Some (Inr ((value, Some action), []))
                else alphabeta_max_loop branch rest bestValue bestAction alpha beta)))"

fun alphabeta_min_loop ::
  "(action \<Rightarrow> score \<Rightarrow> score \<Rightarrow> ('s, score) run) \<Rightarrow> action list \<Rightarrow> score \<Rightarrow> action option
     \<Rightarrow> score \<Rightarrow> score \<Rightarrow> ('s, score \<times> action option) run" where
  "alphabeta_min_loop branch [] bestValue bestAction alpha beta =
     Some (Inr ((bestValue, bestAction), []))"
| "alphabeta_min_loop branch (action # rest) bestValue bestAction alpha beta =
     (case branch action alpha beta of
        None \<Rightarrow> None
      | Some (Inl e) \<Rightarrow> Some (Inl e)
      | Some (Inr (value, trace)) \<Rightarrow>
          logged trace
            (if value < bestValue then
               (if value \<le> alpha then Some (Inr ((value, Some action), []))
                else alphabeta_min_loop branch rest value (Some action) alpha (min beta value))
             else
               (if value \<le> alpha then Some (Inr ((value, Some action), []))
                else alphabeta_min_loop branch rest bestValue bestAction alpha beta)))"

text \<open>\<^verbatim>\<open>AlphaBetaAgent.maxValue\<close> and \<^verbatim>\<open>AlphaBetaAgent.minValue\<close>.\<close>

fun AlphaBetaAgent_maxValue ::
  "nat \<Rightarrow> ('s, score) agent \<Rightarrow> 's \<Rightarrow> nat \<Rightarrow> int \<Rightarrow> score \<Rightarrow> score
     \<Rightarrow> ('s, score \<times> action option) run"
and AlphaBetaAgent_minValue ::
  "nat \<Rightarrow> ('s, score) agent \<Rightarrow> 's \<Rightarrow> nat \<Rightarrow> int \<Rightarrow> score \<Rightarrow> score
     \<Rightarrow> ('s, score \<times> action option) run"
where
  "AlphaBetaAgent_maxValue 0 self gameState agent depth alpha beta = None"
| "AlphaBetaAgent_maxValue (Suc fuel) self gameState agent depth alpha beta =
     (let legalActions = removeStop (getLegalActions self gameState agent) in
      if depth = getTreeDepth self \<or> legalActions = [] then
        Some (Inr ((getEvaluationFunction self gameState, None), [Evaluated gameState]))
      else
        alphabeta_max_loop
          (\<lambda>action alpha beta.
             let successorGameState = generateSuccessor self gameState agent action in
             case nextAgent_of agent (getNumAgents self gameState) of
               Inl e \<Rightarrow> Some (Inl e)
             | Inr nextAgent \<Rightarrow>
                 logged [Expanded gameState agent action]
                   (value_of
                      (if nextAgent = 0 then
                         AlphaBetaAgent_maxValue fuel self successorGameState nextAgent
                           (depth + 1) alpha beta
                       else
                         AlphaBetaAgent_minValue fuel self successorGameState nextAgent
                           depth alpha beta)))
          legalActions NegInf None alpha beta)"
| "AlphaBetaAgent_minValue 0 self gameState agent depth alpha beta = None"
| "AlphaBetaAgent_minValue (Suc fuel) self gameState agent depth alpha beta =
     (let legalActions = removeStop (getLegalActions self gameState agent) in
      if depth = getTreeDepth self \<or> legalActions = [] then
        Some (Inr ((getEvaluationFunction self gameState, None), [Evaluated gameState]))
      else
        alphabeta_min_loop
          (\<lambda>action alpha beta.
             let successorGameState = generateSuccessor self gameState agent action in
             case nextAgent_of agent (getNumAgents self gameState) of
               Inl e \<Rightarrow> Some (Inl e)
             | Inr nextAgent \<Rightarrow>
                 logged [Expanded gameState agent action]
                   (value_of
                      (if nextAgent = 0 then
                         AlphaBetaAgent_maxValue fuel self successorGameState nextAgent
                           (depth + 1) alpha beta
                       else
                         AlphaBetaAgent_minValue fuel self successorGameState nextAgent
                           depth alpha beta)))
          legalActions PosInf None alpha beta)"

text \<open>
  \<^verbatim>\<open>AlphaBetaAgent.getAction\<close>:
  \<^verbatim>\<open>_, action = self.maxValue(gameState, 0, 0, -inf, inf)\<close>.
\<close>

definition AlphaBetaAgent_getAction ::
  "nat \<Rightarrow> ('s, score) agent \<Rightarrow> 's \<Rightarrow> ('s, action option) run" where
  "AlphaBetaAgent_getAction fuel self gameState =
     action_of (AlphaBetaAgent_maxValue fuel self gameState 0 0 NegInf PosInf)"

subsection \<open>ExpectimaxAgent\<close>

text \<open>
  The values of the evaluation function are finite here and the arithmetic is exact:
  \<^verbatim>\<open>float(sum(values)) / float(len(legalActions))\<close> is the quotient of rationals.
  \<^verbatim>\<open>max(values)\<close> raises on the empty list.
\<close>

definition py_max :: "rat list \<Rightarrow> error + rat" where
  "py_max xs = (case xs of [] \<Rightarrow> Inl ValueError | x # rest \<Rightarrow> Inr (fold max rest x))"

definition py_truediv :: "rat \<Rightarrow> rat \<Rightarrow> error + rat" where
  "py_truediv x y = (if y = 0 then Inl (ZeroDivisionError FloatDivision) else Inr (x / y))"

text \<open>
  The loop of \<^verbatim>\<open>expectimaxValue\<close>, which appends the value of every branch to
  \<^verbatim>\<open>values\<close>.
\<close>

fun expectimax_values_loop ::
  "(action \<Rightarrow> ('s, rat) run) \<Rightarrow> action list \<Rightarrow> rat list \<Rightarrow> ('s, rat list) run" where
  "expectimax_values_loop branch [] values = Some (Inr (values, []))"
| "expectimax_values_loop branch (action # rest) values =
     (case branch action of
        None \<Rightarrow> None
      | Some (Inl e) \<Rightarrow> Some (Inl e)
      | Some (Inr (value, trace)) \<Rightarrow>
          logged trace (expectimax_values_loop branch rest (values @ [value])))"

text \<open>
  The end of \<^verbatim>\<open>expectimaxValue\<close>: the maximum for agent 0, the mean for the others,
  with the divisor \<^verbatim>\<open>len(legalActions)\<close>.
\<close>

definition expectedValue_of :: "nat \<Rightarrow> rat list \<Rightarrow> action list \<Rightarrow> error + rat" where
  "expectedValue_of agent values legalActions =
     (if agent = 0 then py_max values
      else py_truediv (sum_list values) (of_nat (length legalActions)))"

fun expectimaxValue ::
  "nat \<Rightarrow> ('s, rat) agent \<Rightarrow> 's \<Rightarrow> nat \<Rightarrow> int \<Rightarrow> ('s, rat) run" where
  "expectimaxValue 0 self gameState agent depth = None"
| "expectimaxValue (Suc fuel) self gameState agent depth =
     (let legalActions = removeStop (getLegalActions self gameState agent) in
      if depth = getTreeDepth self \<or> legalActions = [] then
        Some (Inr (getEvaluationFunction self gameState, [Evaluated gameState]))
      else
        case expectimax_values_loop
               (\<lambda>action.
                  let successorGameState = generateSuccessor self gameState agent action in
                  case nextAgent_of agent (getNumAgents self gameState) of
                    Inl e \<Rightarrow> Some (Inl e)
                  | Inr nextAgent \<Rightarrow>
                      let nextDepth = (if nextAgent = 0 then depth + 1 else depth) in
                      logged [Expanded gameState agent action]
                        (expectimaxValue fuel self successorGameState nextAgent nextDepth))
               legalActions []
        of
          None \<Rightarrow> None
        | Some (Inl e) \<Rightarrow> Some (Inl e)
        | Some (Inr (values, trace)) \<Rightarrow>
            (case expectedValue_of agent values legalActions of
               Inl e \<Rightarrow> Some (Inl e)
             | Inr expectedValue \<Rightarrow> Some (Inr (expectedValue, trace))))"

text \<open>
  \<^verbatim>\<open>ExpectimaxAgent.getAction\<close>, with its own loop over the actions of agent 0. The
  running \<^verbatim>\<open>bestValue\<close> starts at \<^verbatim>\<open>-inf\<close>.
\<close>

fun expectimax_best_loop ::
  "(action \<Rightarrow> ('s, rat) run) \<Rightarrow> action list \<Rightarrow> score \<Rightarrow> action option
     \<Rightarrow> ('s, action option) run" where
  "expectimax_best_loop branch [] bestValue bestAction = Some (Inr (bestAction, []))"
| "expectimax_best_loop branch (action # rest) bestValue bestAction =
     (case branch action of
        None \<Rightarrow> None
      | Some (Inl e) \<Rightarrow> Some (Inl e)
      | Some (Inr (expectedValue, trace)) \<Rightarrow>
          logged trace
            (if Fin expectedValue > bestValue then
               expectimax_best_loop branch rest (Fin expectedValue) (Some action)
             else expectimax_best_loop branch rest bestValue bestAction))"

definition ExpectimaxAgent_getAction ::
  "nat \<Rightarrow> ('s, rat) agent \<Rightarrow> 's \<Rightarrow> ('s, action option) run" where
  "ExpectimaxAgent_getAction fuel self gameState =
     (let legalActions = removeStop (getLegalActions self gameState 0) in
      if legalActions = [] then Some (Inr (Some STOP, []))
      else
        expectimax_best_loop
          (\<lambda>action.
             let successorGameState = generateSuccessor self gameState 0 action in
             logged [Expanded gameState 0 action]
               (expectimaxValue fuel self successorGameState 1 0))
          legalActions NegInf None)"

subsection \<open>What a search with a window may return\<close>

text \<open>
  A value \<open>v\<close> returned for the window from \<open>alpha\<close> to \<open>beta\<close> stands for the
  minimax value \<open>m\<close>: inside the window it is \<open>m\<close>, at or below \<open>alpha\<close> it is
  an upper bound of \<open>m\<close>, at or above \<open>beta\<close> a lower bound.
\<close>

definition bounds :: "score \<Rightarrow> score \<Rightarrow> score \<Rightarrow> score \<Rightarrow> bool" where
  "bounds alpha beta m v \<longleftrightarrow>
     (v \<le> alpha \<longrightarrow> m \<le> v) \<and> (alpha < v \<and> v < beta \<longrightarrow> v = m) \<and> (beta \<le> v \<longrightarrow> v \<le> m)"

section \<open>Concrete inputs\<close>




definition no_food_left :: pacman_state where
  "no_food_left =
     \<lparr>getPacmanPosition = (0, 0), getFood = [], getGhostStates = [(5, 5)],
      getCapsules = [], getScore = 10\<rparr>"

definition move_pacman :: "pacman_state \<Rightarrow> action \<Rightarrow> pacman_state" where
  "move_pacman s a =
     s\<lparr>getPacmanPosition :=
         (case a of
            NORTH \<Rightarrow> (fst (getPacmanPosition s), snd (getPacmanPosition s) + 1)
          | SOUTH \<Rightarrow> (fst (getPacmanPosition s), snd (getPacmanPosition s) - 1)
          | EAST \<Rightarrow> (fst (getPacmanPosition s) + 1, snd (getPacmanPosition s))
          | WEST \<Rightarrow> (fst (getPacmanPosition s) - 1, snd (getPacmanPosition s))
          | STOP \<Rightarrow> getPacmanPosition s)\<rparr>"

text \<open>
  A game for two agents whose state is the list of the actions played so far. Every agent
  may stop, go west or go east; the search is one ply deep, so the leaves are the four
  states reached by two moves, valued 3, 5, 2 and 9.
\<close>

definition leaf_values :: "action list \<Rightarrow> rat" where
  "leaf_values s =
     (if s = [WEST, WEST] then 3 else if s = [WEST, EAST] then 5
      else if s = [EAST, WEST] then 2 else if s = [EAST, EAST] then 9 else 0)"

definition two_ply_game :: "(action list \<Rightarrow> 'v) \<Rightarrow> (action list, 'v) agent" where
  "two_ply_game ev =
     \<lparr>getLegalActions = (\<lambda>s agent. [STOP, WEST, EAST]),
      generateSuccessor = (\<lambda>s agent a. s @ [a]),
      getNumAgents = (\<lambda>s. 2),
      getTreeDepth = 1,
      getEvaluationFunction = ev\<rparr>"

text \<open>The same game when nobody can move but to stop, and when stopping is listed twice.\<close>

definition stuck_game :: "(action list \<Rightarrow> 'v) \<Rightarrow> (action list, 'v) agent" where
  "stuck_game ev = (two_ply_game ev)\<lparr>getLegalActions := (\<lambda>s agent. [STOP])\<rparr>"


text \<open>
  A search problem on the states 0 to 5: from \<open>n\<close> below 4 one may step to \<open>n + 1\<close>
  or jump to \<open>n + 2\<close>, from 4 and 5 one steps back to 0; the goal is 4.
\<close>

datatype move = Step | Jump | Back

definition hops :: "(nat, move) problem" where
  "hops =
     \<lparr>startingState = 0,
      isGoal = (\<lambda>n. n = 4),
      successorStates =
        (\<lambda>n. if n < 4 then [(n + 1, Step, 1), (n + 2, Jump, 1)] else [(0, Back, 1)])\<rparr>"

text \<open>The same steps with a goal that is never reached.\<close>

definition hops_no_goal :: "(nat, move) problem" where
  "hops_no_goal = hops\<lparr>isGoal := (\<lambda>n. n = 7)\<rparr>"

section \<open>Properties of the unfinished strategies\<close>

text \<open>
  C7. Whatever the problem and the heuristic, each of \<open>depthFirstSearch\<close>,
  \<open>uniformCostSearch\<close> and \<open>aStarSearch\<close> ends in the fault \<open>NotImplementedError\<close>
  and so returns no value.
\<close>

theorem unimplemented_strategies_raise:
  "depthFirstSearch problem = Inl NotImplementedError
   \<and> uniformCostSearch problem = Inl NotImplementedError
   \<and> aStarSearch problem heuristic = Inl NotImplementedError
   \<and> (\<forall>v. depthFirstSearch problem \<noteq> Inr v)
   \<and> (\<forall>v. uniformCostSearch problem \<noteq> Inr v)
   \<and> (\<forall>v. aStarSearch problem heuristic \<noteq> Inr v)"
  by (simp add: depthFirstSearch_def uniformCostSearch_def aStarSearch_def)

section \<open>Properties of the evaluators\<close>








text \<open>
  C9. When the current state has no food left, \<open>evaluationFunction\<close> of the reflex agent
  returns no score for any action: the sorted list of food distances is empty and reading
  its first item raises \<open>IndexError\<close>. \<open>betterEvaluationFunction\<close> guards the case
  and returns the score.
\<close>

theorem reflex_no_food_IndexError:
  assumes "getFood currentGameState = []"
  shows "evaluationFunction generatePacmanSuccessor currentGameState act = Inl IndexError
    \<and> (\<forall>v. evaluationFunction generatePacmanSuccessor currentGameState act \<noteq> Inr v)
    \<and> betterEvaluationFunction currentGameState = Inr (getScore currentGameState)"
  using assms
  by (simp add: evaluationFunction_def first_item_def betterEvaluationFunction_def)

theorem reflex_no_food_IndexError_witness:
  "getFood no_food_left = []
   \<and> evaluationFunction move_pacman no_food_left EAST = Inl IndexError
   \<and> betterEvaluationFunction no_food_left = Inr 10"
proof -
  have h: "getFood no_food_left = []"
    by (simp add: no_food_left_def)
  have "getScore no_food_left = 10"
    by (simp add: no_food_left_def)
  with reflex_no_food_IndexError [OF h, of move_pacman EAST] h show ?thesis
    by simp
qed

section \<open>Properties of the adversarial search agents\<close>

subsection \<open>Runs and traces\<close>

lemma logged_simps [simp]:
  "logged e None = None"
  "logged e (Some (Inl x)) = Some (Inl x)"
  "logged e (Some (Inr (r, t))) = Some (Inr (r, e @ t))"
  by (simp_all add: logged_def)

lemma value_of_simps [simp]:
  "value_of None = None"
  "value_of (Some (Inl x)) = Some (Inl x)"
  "value_of (Some (Inr ((v, a), t))) = Some (Inr (v, t))"
  by (simp_all add: value_of_def)

lemma action_of_simps [simp]:
  "action_of None = None"
  "action_of (Some (Inl x)) = Some (Inl x)"
  "action_of (Some (Inr ((v, a), t))) = Some (Inr (a, t))"
  by (simp_all add: action_of_def)

lemma logged_Inr_iff:
  "logged e r = Some (Inr (x, t)) \<longleftrightarrow> (\<exists>t'. r = Some (Inr (x, t')) \<and> t = e @ t')"
  by (auto simp: logged_def split: option.splits sum.splits)

lemma value_of_Inr_iff:
  "value_of r = Some (Inr (v, t)) \<longleftrightarrow> (\<exists>a. r = Some (Inr ((v, a), t)))"
  by (auto simp: value_of_def split: option.splits sum.splits)


lemma value_of_Inl_iff: "value_of r = Some (Inl x) \<longleftrightarrow> r = Some (Inl x)"
  by (auto simp: value_of_def split: option.splits sum.splits)


lemma removeStop_empty_iff:
  "removeStop acts = [] \<longleftrightarrow> acts = [] \<or> acts = [STOP]"
  by (cases acts) (auto simp: removeStop_def split: if_splits)


subsection \<open>An agent without a move\<close>

text \<open>
  C2. In a state where agent 0 may only stop, \<open>getAction\<close> of the minimax agent and of
  the alpha-beta agent returns \<^verbatim>\<open>None\<close>, the action paired with the leaf evaluation by
  \<open>maxValue\<close>; only the expectimax agent returns \<open>STOP\<close>.
\<close>

theorem getAction_without_legal_action:
  "removeStop (getLegalActions (stuck_game (Fin \<circ> leaf_values)) [] 0) = []
   \<and> MinimaxAgent_getAction (Suc 0) (stuck_game (Fin \<circ> leaf_values)) []
       = Some (Inr (None, [Evaluated []]))
   \<and> AlphaBetaAgent_getAction (Suc 0) (stuck_game (Fin \<circ> leaf_values)) []
       = Some (Inr (None, [Evaluated []]))
   \<and> ExpectimaxAgent_getAction (Suc 0) (stuck_game leaf_values) []
       = Some (Inr (Some STOP, []))"
  by (simp add: MinimaxAgent_getAction_def AlphaBetaAgent_getAction_def
      ExpectimaxAgent_getAction_def stuck_game_def two_ply_game_def removeStop_def)

text \<open>The same for every state and every fuel that allows one call.\<close>

lemma getAction_no_legal_action:
  assumes "removeStop (getLegalActions self gameState 0) = []"
  shows "MinimaxAgent_getAction (Suc fuel) self gameState
           = Some (Inr (None, [Evaluated gameState]))"
    and "AlphaBetaAgent_getAction (Suc fuel) self gameState
           = Some (Inr (None, [Evaluated gameState]))"
  using assms by (simp_all add: MinimaxAgent_getAction_def AlphaBetaAgent_getAction_def)

lemma ExpectimaxAgent_getAction_no_legal_action:
  assumes "removeStop (getLegalActions self gameState 0) = []"
  shows "ExpectimaxAgent_getAction fuel self gameState = Some (Inr (Some STOP, []))"
  using assms by (simp add: ExpectimaxAgent_getAction_def)

subsection \<open>A tree with a branch to prune\<close>

text \<open>
  C4. On the game of two plies and branching factor 2 with the leaves 3, 5, 2 and 9, the
  minimax agent and the alpha-beta agent return the same value and action; minimax calls
  the evaluation function four times, alpha-beta three times: the leaf valued 9, behind
  the cut-off of the second minimising node, is never evaluated nor even generated.
\<close>

theorem alphabeta_evaluates_fewer_leaves:
  "\<exists>minimax_trace alphabeta_trace.
     MinimaxAgent_maxValue (Suc (Suc (Suc 0))) (two_ply_game (Fin \<circ> leaf_values)) [] 0 0
       = Some (Inr ((Fin 3, Some WEST), minimax_trace))
     \<and> AlphaBetaAgent_maxValue (Suc (Suc (Suc 0))) (two_ply_game (Fin \<circ> leaf_values)) [] 0 0
         NegInf PosInf
       = Some (Inr ((Fin 3, Some WEST), alphabeta_trace))
     \<and> evaluation_calls minimax_trace = 4
     \<and> evaluation_calls alphabeta_trace = 3
     \<and> evaluation_calls alphabeta_trace < evaluation_calls minimax_trace
     \<and> Evaluated [EAST, EAST] \<in> set minimax_trace
     \<and> Evaluated [EAST, EAST] \<notin> set alphabeta_trace
     \<and> Expanded [EAST] 1 EAST \<notin> set alphabeta_trace"
proof -
  have mm: "MinimaxAgent_maxValue (Suc (Suc (Suc 0))) (two_ply_game (Fin \<circ> leaf_values)) [] 0 0
      = Some (Inr ((Fin 3, Some WEST),
          [Expanded [] 0 WEST, Expanded [WEST] 1 WEST, Evaluated [WEST, WEST],
           Expanded [WEST] 1 EAST, Evaluated [WEST, EAST],
           Expanded [] 0 EAST, Expanded [EAST] 1 WEST, Evaluated [EAST, WEST],
           Expanded [EAST] 1 EAST, Evaluated [EAST, EAST]]))"
    by (simp add: two_ply_game_def removeStop_def nextAgent_of_def leaf_values_def
        less_score_def Let_def)
  have ab: "AlphaBetaAgent_maxValue (Suc (Suc (Suc 0))) (two_ply_game (Fin \<circ> leaf_values)) [] 0 0
        NegInf PosInf
      = Some (Inr ((Fin 3, Some WEST),
          [Expanded [] 0 WEST, Expanded [WEST] 1 WEST, Evaluated [WEST, WEST],
           Expanded [WEST] 1 EAST, Evaluated [WEST, EAST],
           Expanded [] 0 EAST, Expanded [EAST] 1 WEST, Evaluated [EAST, WEST]]))"
    by (simp add: two_ply_game_def removeStop_def nextAgent_of_def leaf_values_def
        less_score_def Let_def)
  show ?thesis
    unfolding mm ab by (simp add: evaluation_calls_def)
qed

subsection \<open>Expectimax\<close>














subsection \<open>The no-op action in the search\<close>
















subsection \<open>Alpha-beta pruning against minimax\<close>


lemma bounds_refl: "bounds alpha beta m m"
  by (simp add: bounds_def)

lemma score_top: "x \<le> PosInf"
  by (cases x) simp_all

lemma score_bot: "NegInf \<le> x"
  by simp

lemma PosInf_le_iff: "PosInf \<le> x \<longleftrightarrow> x = PosInf"
  by (cases x) simp_all

lemma le_NegInf_iff: "x \<le> NegInf \<longleftrightarrow> x = NegInf"
  by (cases x) simp_all

lemma not_PosInf_less: "\<not> PosInf < x"
  by (simp add: less_score_def score_top)

lemma not_less_NegInf: "\<not> x < NegInf"
  by (simp add: less_score_def)

lemma bounds_root: "bounds NegInf PosInf m v \<Longrightarrow> v = m"
  unfolding bounds_def
  by (metis PosInf_le_iff le_NegInf_iff linorder_not_le nle_le)

text \<open>The running best value of a minimax loop only moves one way.\<close>

lemma minimax_max_loop_ge:
  "minimax_max_loop branch acts b ba = Some (Inr ((M, A), t)) \<Longrightarrow> b \<le> M"
proof (induction acts arbitrary: b ba t)
  case Nil
  then show ?case by simp
next
  case (Cons a acts)
  from Cons.prems obtain v t1 t2 where
    rest: "(if v > b then minimax_max_loop branch acts v (Some a)
            else minimax_max_loop branch acts b ba) = Some (Inr ((M, A), t2))"
    by (auto simp: logged_Inr_iff split: option.splits sum.splits)
  then show ?case
    using Cons.IH by (fastforce split: if_splits)
qed

lemma minimax_min_loop_le:
  "minimax_min_loop branch acts b ba = Some (Inr ((M, A), t)) \<Longrightarrow> M \<le> b"
proof (induction acts arbitrary: b ba t)
  case Nil
  then show ?case by simp
next
  case (Cons a acts)
  from Cons.prems obtain v t1 t2 where
    rest: "(if v < b then minimax_min_loop branch acts v (Some a)
            else minimax_min_loop branch acts b ba) = Some (Inr ((M, A), t2))"
    by (auto simp: logged_Inr_iff split: option.splits sum.splits)
  then show ?case
    using Cons.IH by (fastforce split: if_splits)
qed

lemma minimax_max_loop_top:
  "minimax_max_loop branch acts PosInf ba = Some (Inr ((M, A), t)) \<Longrightarrow> M = PosInf \<and> A = ba"
proof (induction acts arbitrary: t)
  case Nil
  then show ?case by simp
next
  case (Cons a acts)
  then show ?case
    by (auto simp: logged_Inr_iff not_PosInf_less split: option.splits sum.splits)
qed

text \<open>The steps of the loop invariant at a maximising node, as facts about the order.\<close>

lemma max_cutoff:
  assumes "bounds alpha beta m v" "beta \<le> v" "m \<le> M" "alpha0 < beta"
  shows "bounds alpha0 beta M v"
  using assms unfolding bounds_def by auto

lemma max_improve:
  assumes "bounds (max alpha0 b) beta m v" "v < beta" "b < v"
    and "b \<le> alpha0 \<longrightarrow> bm \<le> b" "alpha0 < b \<longrightarrow> b = bm"
  shows "(v \<le> alpha0 \<longrightarrow> (if bm < m then m else bm) \<le> v)
       \<and> (alpha0 < v \<longrightarrow> v = (if bm < m then m else bm))"
  using assms unfolding bounds_def max_def by (auto split: if_splits)

lemma max_keep:
  assumes "bounds (max alpha0 b) beta m v" "v < beta" "\<not> b < v"
    and "b \<le> alpha0 \<longrightarrow> bm \<le> b" "alpha0 < b \<longrightarrow> b = bm"
  shows "(b \<le> alpha0 \<longrightarrow> (if bm < m then m else bm) \<le> b)
       \<and> (alpha0 < b \<longrightarrow> b = (if bm < m then m else bm))"
  using assms unfolding bounds_def max_def by (auto split: if_splits)

lemma max_done:
  assumes "b < beta" "b \<le> alpha0 \<longrightarrow> bm \<le> b" "alpha0 < b \<longrightarrow> b = bm"
  shows "bounds alpha0 beta bm b"
  using assms unfolding bounds_def by auto


lemma alphabeta_max_loop_bounds:
  assumes window: "alpha0 < beta"
    and children: "\<And>a al m t. a \<in> set acts \<Longrightarrow> al < beta \<Longrightarrow> mbranch a = Some (Inr (m, t))
        \<Longrightarrow> \<exists>v t'. abranch a al beta = Some (Inr (v, t')) \<and> bounds al beta m v"
  shows "minimax_max_loop mbranch acts bm bam = Some (Inr ((M, A), t))
    \<Longrightarrow> b < beta \<Longrightarrow> alpha = max alpha0 b
    \<Longrightarrow> (b \<le> alpha0 \<longrightarrow> bm \<le> b) \<Longrightarrow> (alpha0 < b \<longrightarrow> b = bm)
    \<Longrightarrow> \<exists>v a t'. alphabeta_max_loop abranch acts b ba alpha beta = Some (Inr ((v, a), t'))
          \<and> bounds alpha0 beta M v"
  using children
proof (induction acts arbitrary: bm bam b ba alpha t)
  case Nil
  then show ?case by (simp add: max_done)
next
  case (Cons a acts)
  from Cons.prems(1) obtain m t1 t2 where
    mb: "mbranch a = Some (Inr (m, t1))"
    and rest: "minimax_max_loop mbranch acts (if bm < m then m else bm)
                 (if bm < m then Some a else bam) = Some (Inr ((M, A), t2))"
    by (auto simp: logged_Inr_iff split: option.splits sum.splits if_splits)
  have "alpha < beta"
    using Cons.prems(2,3) window by simp
  with Cons.prems(6) [of a alpha m t1] mb obtain v t' where
    ab: "abranch a alpha beta = Some (Inr (v, t'))" and bd: "bounds alpha beta m v"
    by auto
  have sub: "\<exists>v t'. abranch x al beta = Some (Inr (v, t')) \<and> bounds al beta m' v"
    if "x \<in> set acts" "al < beta" "mbranch x = Some (Inr (m', u))" for x al m' u
    using that Cons.prems(6) [of x al m' u] by simp
  have mM: "m \<le> M"
    using minimax_max_loop_ge [OF rest] by (auto split: if_splits)
  show ?case
  proof (cases "beta \<le> v")
    case True
    have "bounds alpha0 beta M v"
      using bd True mM window by (rule max_cutoff)
    with ab True show ?thesis by auto
  next
    case False
    then have vb: "v < beta" by simp
    show ?thesis
    proof (cases "b < v")
      case True
      have inv: "(v \<le> alpha0 \<longrightarrow> (if bm < m then m else bm) \<le> v)
          \<and> (alpha0 < v \<longrightarrow> v = (if bm < m then m else bm))"
        using bd vb True Cons.prems(4,5) unfolding Cons.prems(3) by (rule max_improve)
      have al: "max alpha v = max alpha0 v"
        using True unfolding Cons.prems(3) by (auto simp: max_def)
      have "\<exists>v' a' t''. alphabeta_max_loop abranch acts v (Some a) (max alpha v) beta
           = Some (Inr ((v', a'), t'')) \<and> bounds alpha0 beta M v'"
      proof (rule Cons.IH [OF rest vb al])
        show "v \<le> alpha0 \<longrightarrow> (if bm < m then m else bm) \<le> v"
          using inv by simp
        show "alpha0 < v \<longrightarrow> v = (if bm < m then m else bm)"
          using inv by simp
        show "\<exists>v t'. abranch x al beta = Some (Inr (v, t')) \<and> bounds al beta m' v"
          if "x \<in> set acts" "al < beta" "mbranch x = Some (Inr (m', u))" for x al m' u
          using that by (rule sub)
      qed
      with ab True False show ?thesis by auto
    next
      case nb: False
      have inv: "(b \<le> alpha0 \<longrightarrow> (if bm < m then m else bm) \<le> b)
          \<and> (alpha0 < b \<longrightarrow> b = (if bm < m then m else bm))"
        using bd vb nb Cons.prems(4,5) unfolding Cons.prems(3) by (rule max_keep)
      have "\<exists>v' a' t''. alphabeta_max_loop abranch acts b ba alpha beta
           = Some (Inr ((v', a'), t'')) \<and> bounds alpha0 beta M v'"
      proof (rule Cons.IH [OF rest Cons.prems(2,3)])
        show "b \<le> alpha0 \<longrightarrow> (if bm < m then m else bm) \<le> b"
          using inv by simp
        show "alpha0 < b \<longrightarrow> b = (if bm < m then m else bm)"
          using inv by simp
        show "\<exists>v t'. abranch x al beta = Some (Inr (v, t')) \<and> bounds al beta m' v"
          if "x \<in> set acts" "al < beta" "mbranch x = Some (Inr (m', u))" for x al m' u
          using that by (rule sub)
      qed
      with ab nb False show ?thesis by auto
    qed
  qed
qed


lemma min_cutoff:
  assumes "bounds alpha beta m v" "v \<le> alpha" "M \<le> m" "alpha < beta0"
  shows "bounds alpha beta0 M v"
  using assms unfolding bounds_def by auto

lemma min_improve:
  assumes "bounds alpha (min beta0 b) m v" "alpha < v" "v < b"
    and "beta0 \<le> b \<longrightarrow> b \<le> bm" "b < beta0 \<longrightarrow> b = bm"
  shows "(beta0 \<le> v \<longrightarrow> v \<le> (if m < bm then m else bm))
       \<and> (v < beta0 \<longrightarrow> v = (if m < bm then m else bm))"
  using assms unfolding bounds_def min_def by (auto split: if_splits)

lemma min_keep:
  assumes "bounds alpha (min beta0 b) m v" "alpha < v" "\<not> v < b"
    and "beta0 \<le> b \<longrightarrow> b \<le> bm" "b < beta0 \<longrightarrow> b = bm"
  shows "(beta0 \<le> b \<longrightarrow> b \<le> (if m < bm then m else bm))
       \<and> (b < beta0 \<longrightarrow> b = (if m < bm then m else bm))"
  using assms unfolding bounds_def min_def by (auto split: if_splits)

lemma min_done:
  assumes "alpha < b" "beta0 \<le> b \<longrightarrow> b \<le> bm" "b < beta0 \<longrightarrow> b = bm"
  shows "bounds alpha beta0 bm b"
  using assms unfolding bounds_def by auto

lemma alphabeta_min_loop_bounds:
  assumes window: "alpha < beta0"
    and children: "\<And>a be m t. a \<in> set acts \<Longrightarrow> alpha < be \<Longrightarrow> mbranch a = Some (Inr (m, t))
        \<Longrightarrow> \<exists>v t'. abranch a alpha be = Some (Inr (v, t')) \<and> bounds alpha be m v"
  shows "minimax_min_loop mbranch acts bm bam = Some (Inr ((M, A), t))
    \<Longrightarrow> alpha < b \<Longrightarrow> beta = min beta0 b
    \<Longrightarrow> (beta0 \<le> b \<longrightarrow> b \<le> bm) \<Longrightarrow> (b < beta0 \<longrightarrow> b = bm)
    \<Longrightarrow> \<exists>v a t'. alphabeta_min_loop abranch acts b ba alpha beta = Some (Inr ((v, a), t'))
          \<and> bounds alpha beta0 M v"
  using children
proof (induction acts arbitrary: bm bam b ba beta t)
  case Nil
  then show ?case by (simp add: min_done)
next
  case (Cons a acts)
  from Cons.prems(1) obtain m t1 t2 where
    mb: "mbranch a = Some (Inr (m, t1))"
    and rest: "minimax_min_loop mbranch acts (if m < bm then m else bm)
                 (if m < bm then Some a else bam) = Some (Inr ((M, A), t2))"
    by (auto simp: logged_Inr_iff split: option.splits sum.splits if_splits)
  have "alpha < beta"
    using Cons.prems(2,3) window by simp
  with Cons.prems(6) [of a beta m t1] mb obtain v t' where
    ab: "abranch a alpha beta = Some (Inr (v, t'))" and bd: "bounds alpha beta m v"
    by auto
  have sub: "\<exists>v t'. abranch x alpha be = Some (Inr (v, t')) \<and> bounds alpha be m' v"
    if "x \<in> set acts" "alpha < be" "mbranch x = Some (Inr (m', u))" for x be m' u
    using that Cons.prems(6) [of x be m' u] by simp
  have mM: "M \<le> m"
    using minimax_min_loop_le [OF rest] by (auto split: if_splits)
  show ?case
  proof (cases "v \<le> alpha")
    case True
    have "bounds alpha beta0 M v"
      using bd True mM window by (rule min_cutoff)
    with ab True show ?thesis by auto
  next
    case False
    then have va: "alpha < v" by simp
    show ?thesis
    proof (cases "v < b")
      case True
      have inv: "(beta0 \<le> v \<longrightarrow> v \<le> (if m < bm then m else bm))
          \<and> (v < beta0 \<longrightarrow> v = (if m < bm then m else bm))"
        using bd va True Cons.prems(4,5) unfolding Cons.prems(3) by (rule min_improve)
      have be: "min beta v = min beta0 v"
        using True unfolding Cons.prems(3) by (auto simp: min_def)
      have "\<exists>v' a' t''. alphabeta_min_loop abranch acts v (Some a) alpha (min beta v)
           = Some (Inr ((v', a'), t'')) \<and> bounds alpha beta0 M v'"
      proof (rule Cons.IH [OF rest va be])
        show "beta0 \<le> v \<longrightarrow> v \<le> (if m < bm then m else bm)"
          using inv by simp
        show "v < beta0 \<longrightarrow> v = (if m < bm then m else bm)"
          using inv by simp
        show "\<exists>v t'. abranch x alpha be = Some (Inr (v, t')) \<and> bounds alpha be m' v"
          if "x \<in> set acts" "alpha < be" "mbranch x = Some (Inr (m', u))" for x be m' u
          using that by (rule sub)
      qed
      with ab True False show ?thesis by auto
    next
      case nb: False
      have inv: "(beta0 \<le> b \<longrightarrow> b \<le> (if m < bm then m else bm))
          \<and> (b < beta0 \<longrightarrow> b = (if m < bm then m else bm))"
        using bd va nb Cons.prems(4,5) unfolding Cons.prems(3) by (rule min_keep)
      have "\<exists>v' a' t''. alphabeta_min_loop abranch acts b ba alpha beta
           = Some (Inr ((v', a'), t'')) \<and> bounds alpha beta0 M v'"
      proof (rule Cons.IH [OF rest Cons.prems(2,3)])
        show "beta0 \<le> b \<longrightarrow> b \<le> (if m < bm then m else bm)"
          using inv by simp
        show "b < beta0 \<longrightarrow> b = (if m < bm then m else bm)"
          using inv by simp
        show "\<exists>v t'. abranch x alpha be = Some (Inr (v, t')) \<and> bounds alpha be m' v"
          if "x \<in> set acts" "alpha < be" "mbranch x = Some (Inr (m', u))" for x be m' u
          using that by (rule sub)
      qed
      with ab nb False show ?thesis by auto
    qed
  qed
qed

text \<open>At the root, where the window is the whole line, the actions agree as well.\<close>

lemma alphabeta_max_loop_root:
  assumes children: "\<And>a al m t. a \<in> set acts \<Longrightarrow> al < PosInf \<Longrightarrow> mbranch a = Some (Inr (m, t))
        \<Longrightarrow> \<exists>v t'. abranch a al PosInf = Some (Inr (v, t')) \<and> bounds al PosInf m v"
  shows "minimax_max_loop mbranch acts b ba = Some (Inr ((M, A), t)) \<Longrightarrow> b < PosInf
    \<Longrightarrow> \<exists>t'. alphabeta_max_loop abranch acts b ba b PosInf = Some (Inr ((M, A), t'))"
  using children
proof (induction acts arbitrary: b ba t)
  case Nil
  then show ?case by simp
next
  case (Cons a acts)
  from Cons.prems(1) obtain m t1 t2 where
    mb: "mbranch a = Some (Inr (m, t1))"
    and rest: "minimax_max_loop mbranch acts (if b < m then m else b)
                 (if b < m then Some a else ba) = Some (Inr ((M, A), t2))"
    by (auto simp: logged_Inr_iff split: option.splits sum.splits if_splits)
  from Cons.prems(3) [of a b m t1] Cons.prems(2) mb obtain v t' where
    ab: "abranch a b PosInf = Some (Inr (v, t'))" and bd: "bounds b PosInf m v"
    by auto
  have sub: "\<exists>v t'. abranch x al PosInf = Some (Inr (v, t')) \<and> bounds al PosInf m' v"
    if "x \<in> set acts" "al < PosInf" "mbranch x = Some (Inr (m', u))" for x al m' u
    using that Cons.prems(3) [of x al m' u] by simp
  show ?case
  proof (cases "b < v")
    case True
    have vm: "v = m"
      using bd True unfolding bounds_def
      by (metis PosInf_le_iff linorder_not_le score_top order_antisym)
    show ?thesis
    proof (cases "PosInf \<le> v")
      case top: True
      then have "v = PosInf" by (simp add: PosInf_le_iff)
      with rest vm True have "M = PosInf \<and> A = Some a"
        using minimax_max_loop_top [of mbranch acts "Some a" M A t2] by simp
      with ab True top \<open>v = PosInf\<close> show ?thesis by simp
    next
      case False
      then have "v < PosInf" by simp
      with Cons.IH [of v "Some a" t2] rest vm True sub
      obtain t'' where "alphabeta_max_loop abranch acts v (Some a) v PosInf
          = Some (Inr ((M, A), t''))"
        by auto
      moreover have "max b v = v" using True by (simp add: max_absorb2 less_imp_le)
      ultimately show ?thesis using ab True False by simp
    qed
  next
    case False
    then have "m \<le> b" "v \<le> b"
      using bd unfolding bounds_def by auto
    then have nm: "\<not> b < m" by simp
    have nt: "\<not> PosInf \<le> v"
      using \<open>v \<le> b\<close> Cons.prems(2) by auto
    from Cons.IH [of b ba t2] rest nm Cons.prems(2) sub
    obtain t'' where "alphabeta_max_loop abranch acts b ba b PosInf = Some (Inr ((M, A), t''))"
      by auto
    with ab False nt show ?thesis by simp
  qed
qed


lemma alphabeta_bounds:
  "alpha < beta \<Longrightarrow>
   (MinimaxAgent_maxValue fuel self s agent depth = Some (Inr ((m, a), t)) \<longrightarrow>
      (\<exists>v a' t'. AlphaBetaAgent_maxValue fuel self s agent depth alpha beta
           = Some (Inr ((v, a'), t')) \<and> bounds alpha beta m v))
   \<and> (MinimaxAgent_minValue fuel self s agent depth = Some (Inr ((m, a), t)) \<longrightarrow>
      (\<exists>v a' t'. AlphaBetaAgent_minValue fuel self s agent depth alpha beta
           = Some (Inr ((v, a'), t')) \<and> bounds alpha beta m v))"
proof (induction fuel arbitrary: s agent depth alpha beta m a t)
  case 0
  show ?case by simp
next
  case (Suc fuel)
  let ?acts = "removeStop (getLegalActions self s agent)"
  let ?mbranch = "\<lambda>action.
      let successorGameState = generateSuccessor self s agent action in
      case nextAgent_of agent (getNumAgents self s) of
        Inl e \<Rightarrow> Some (Inl e)
      | Inr nextAgent \<Rightarrow>
          logged [Expanded s agent action]
            (value_of
               (if nextAgent = 0 then
                  MinimaxAgent_maxValue fuel self successorGameState nextAgent (depth + 1)
                else
                  MinimaxAgent_minValue fuel self successorGameState nextAgent depth))"
  let ?abranch = "\<lambda>action alpha beta.
      let successorGameState = generateSuccessor self s agent action in
      case nextAgent_of agent (getNumAgents self s) of
        Inl e \<Rightarrow> Some (Inl e)
      | Inr nextAgent \<Rightarrow>
          logged [Expanded s agent action]
            (value_of
               (if nextAgent = 0 then
                  AlphaBetaAgent_maxValue fuel self successorGameState nextAgent
                    (depth + 1) alpha beta
                else
                  AlphaBetaAgent_minValue fuel self successorGameState nextAgent
                    depth alpha beta))"
  have children: "\<exists>v t'. ?abranch x al be = Some (Inr (v, t')) \<and> bounds al be m' v"
    if "al < be" "?mbranch x = Some (Inr (m', u))" for x al be m' u
  proof (cases "nextAgent_of agent (getNumAgents self s)")
    case (Inl e)
    with that(2) show ?thesis by (simp add: Let_def)
  next
    case (Inr nextAgent)
    show ?thesis
    proof (cases "nextAgent = 0")
      case True
      with that(2) Inr obtain a1 u1 where
        "MinimaxAgent_maxValue fuel self (generateSuccessor self s agent x) nextAgent (depth + 1)
           = Some (Inr ((m', a1), u1))"
        by (auto simp: Let_def logged_Inr_iff value_of_Inr_iff)
      with Suc.IH [OF that(1)] obtain v a' t' where
        "AlphaBetaAgent_maxValue fuel self (generateSuccessor self s agent x) nextAgent
           (depth + 1) al be = Some (Inr ((v, a'), t'))" "bounds al be m' v"
        by blast
      with Inr True show ?thesis by (simp add: Let_def)
    next
      case False
      with that(2) Inr obtain a1 u1 where
        "MinimaxAgent_minValue fuel self (generateSuccessor self s agent x) nextAgent depth
           = Some (Inr ((m', a1), u1))"
        by (auto simp: Let_def logged_Inr_iff value_of_Inr_iff)
      with Suc.IH [OF that(1)] obtain v a' t' where
        "AlphaBetaAgent_minValue fuel self (generateSuccessor self s agent x) nextAgent
           depth al be = Some (Inr ((v, a'), t'))" "bounds al be m' v"
        by blast
      with Inr False show ?thesis by (simp add: Let_def)
    qed
  qed
  have lo: "NegInf < beta" and hi: "alpha < PosInf"
    using Suc.prems by (cases alpha; cases beta; simp add: less_score_def)+
  show ?case
  proof (cases "depth = getTreeDepth self \<or> ?acts = []")
    case True
    then show ?thesis by (auto simp: bounds_refl)
  next
    case False
    have mx: "\<exists>v a' t'. alphabeta_max_loop ?abranch ?acts NegInf None alpha beta
          = Some (Inr ((v, a'), t')) \<and> bounds alpha beta m v"
      if "minimax_max_loop ?mbranch ?acts NegInf None = Some (Inr ((m, a), t))"
    proof (rule alphabeta_max_loop_bounds [OF Suc.prems _ that lo])
      show "\<exists>v t'. ?abranch x al beta = Some (Inr (v, t')) \<and> bounds al beta m' v"
        if "x \<in> set ?acts" "al < beta" "?mbranch x = Some (Inr (m', u))" for x al m' u
        using that(2,3) by (rule children)
    qed (simp_all add: max_def le_NegInf_iff)
    have mn: "\<exists>v a' t'. alphabeta_min_loop ?abranch ?acts PosInf None alpha beta
          = Some (Inr ((v, a'), t')) \<and> bounds alpha beta m v"
      if "minimax_min_loop ?mbranch ?acts PosInf None = Some (Inr ((m, a), t))"
    proof (rule alphabeta_min_loop_bounds [OF Suc.prems _ that hi])
      show "\<exists>v t'. ?abranch x alpha be = Some (Inr (v, t')) \<and> bounds alpha be m' v"
        if "x \<in> set ?acts" "alpha < be" "?mbranch x = Some (Inr (m', u))" for x be m' u
        using that(2,3) by (rule children)
    qed (simp_all add: min_def score_top PosInf_le_iff)
    from False mx mn show ?thesis
      by (simp add: Let_def del: minimax_max_loop.simps minimax_min_loop.simps
          alphabeta_max_loop.simps alphabeta_min_loop.simps)
  qed
qed

lemma alphabeta_root:
  assumes "MinimaxAgent_maxValue fuel self s agent depth = Some (Inr ((m, a), t))"
  shows "\<exists>t'. AlphaBetaAgent_maxValue fuel self s agent depth NegInf PosInf
           = Some (Inr ((m, a), t'))"
proof (cases fuel)
  case 0
  with assms show ?thesis by simp
next
  case (Suc n)
  let ?acts = "removeStop (getLegalActions self s agent)"
  let ?mbranch = "\<lambda>action.
      let successorGameState = generateSuccessor self s agent action in
      case nextAgent_of agent (getNumAgents self s) of
        Inl e \<Rightarrow> Some (Inl e)
      | Inr nextAgent \<Rightarrow>
          logged [Expanded s agent action]
            (value_of
               (if nextAgent = 0 then
                  MinimaxAgent_maxValue n self successorGameState nextAgent (depth + 1)
                else
                  MinimaxAgent_minValue n self successorGameState nextAgent depth))"
  let ?abranch = "\<lambda>action alpha beta.
      let successorGameState = generateSuccessor self s agent action in
      case nextAgent_of agent (getNumAgents self s) of
        Inl e \<Rightarrow> Some (Inl e)
      | Inr nextAgent \<Rightarrow>
          logged [Expanded s agent action]
            (value_of
               (if nextAgent = 0 then
                  AlphaBetaAgent_maxValue n self successorGameState nextAgent
                    (depth + 1) alpha beta
                else
                  AlphaBetaAgent_minValue n self successorGameState nextAgent
                    depth alpha beta))"
  show ?thesis
  proof (cases "depth = getTreeDepth self \<or> ?acts = []")
    case True
    with assms Suc show ?thesis by auto
  next
    case False
    with assms Suc have mm: "minimax_max_loop ?mbranch ?acts NegInf None = Some (Inr ((m, a), t))"
      by (simp add: Let_def del: minimax_max_loop.simps)
    have "\<exists>t'. alphabeta_max_loop ?abranch ?acts NegInf None NegInf PosInf
        = Some (Inr ((m, a), t'))"
    proof (rule alphabeta_max_loop_root [OF _ mm])
      show "NegInf < PosInf" by (simp add: less_score_def)
      show "\<exists>v t'. ?abranch x al PosInf = Some (Inr (v, t')) \<and> bounds al PosInf m' v"
        if "x \<in> set ?acts" "al < PosInf" "?mbranch x = Some (Inr (m', u))" for x al m' u
      proof (cases "nextAgent_of agent (getNumAgents self s)")
        case (Inl e)
        with that(3) show ?thesis by (simp add: Let_def)
      next
        case (Inr nextAgent)
        show ?thesis
        proof (cases "nextAgent = 0")
          case True
          with that(3) Inr obtain a1 u1 where
            child: "MinimaxAgent_maxValue n self (generateSuccessor self s agent x) nextAgent
               (depth + 1) = Some (Inr ((m', a1), u1))"
            by (auto simp: Let_def logged_Inr_iff value_of_Inr_iff)
          from alphabeta_bounds [OF that(2), THEN conjunct1, rule_format, OF child]
          obtain v a' t' where
            "AlphaBetaAgent_maxValue n self (generateSuccessor self s agent x) nextAgent
               (depth + 1) al PosInf = Some (Inr ((v, a'), t'))" "bounds al PosInf m' v"
            by blast
          with Inr True show ?thesis by (simp add: Let_def)
        next
          case False
          with that(3) Inr obtain a1 u1 where
            child: "MinimaxAgent_minValue n self (generateSuccessor self s agent x) nextAgent
               depth = Some (Inr ((m', a1), u1))"
            by (auto simp: Let_def logged_Inr_iff value_of_Inr_iff)
          from alphabeta_bounds [OF that(2), THEN conjunct2, rule_format, OF child]
          obtain v a' t' where
            "AlphaBetaAgent_minValue n self (generateSuccessor self s agent x) nextAgent
               depth al PosInf = Some (Inr ((v, a'), t'))" "bounds al PosInf m' v"
            by blast
          with Inr False show ?thesis by (simp add: Let_def)
        qed
      qed
    qed
    with False Suc show ?thesis
      by (simp add: Let_def del: alphabeta_max_loop.simps)
  qed
qed



lemma minimax_max_loop_returns:
  "\<forall>a\<in>set acts. \<exists>v t. branch a = Some (Inr (v, t))
   \<Longrightarrow> \<exists>r t. minimax_max_loop branch acts b ba = Some (Inr (r, t))"
proof (induction acts arbitrary: b ba)
  case Nil
  show ?case by simp
next
  case (Cons a acts)
  from Cons.prems obtain v t where br: "branch a = Some (Inr (v, t))" by auto
  from Cons.prems have rest: "\<forall>a\<in>set acts. \<exists>v t. branch a = Some (Inr (v, t))" by simp
  from Cons.IH [OF rest, of "if v > b then v else b" "if v > b then Some a else ba"]
  obtain r t' where "minimax_max_loop branch acts (if v > b then v else b)
      (if v > b then Some a else ba) = Some (Inr (r, t'))"
    by blast
  with br show ?case by (auto split: if_splits)
qed

lemma minimax_min_loop_returns:
  "\<forall>a\<in>set acts. \<exists>v t. branch a = Some (Inr (v, t))
   \<Longrightarrow> \<exists>r t. minimax_min_loop branch acts b ba = Some (Inr (r, t))"
proof (induction acts arbitrary: b ba)
  case Nil
  show ?case by simp
next
  case (Cons a acts)
  from Cons.prems obtain v t where br: "branch a = Some (Inr (v, t))" by auto
  from Cons.prems have rest: "\<forall>a\<in>set acts. \<exists>v t. branch a = Some (Inr (v, t))" by simp
  from Cons.IH [OF rest, of "if v < b then v else b" "if v < b then Some a else ba"]
  obtain r t' where "minimax_min_loop branch acts (if v < b then v else b)
      (if v < b then Some a else ba) = Some (Inr (r, t'))"
    by blast
  with br show ?case by (auto split: if_splits)
qed

lemma wrap_zero:
  fixes agent N :: nat
  shows "agent < N \<Longrightarrow> (agent + 1) mod N = 0 \<Longrightarrow> agent + 1 = N"
  by (cases "agent + 1 < N") auto

lemma wrap_nonzero:
  fixes agent N :: nat
  assumes "agent < N" "(agent + 1) mod N \<noteq> 0"
  shows "(agent + 1) mod N = agent + 1 \<and> agent + 1 < N"
proof (cases "agent + 1 < N")
  case True
  then show ?thesis by simp
next
  case False
  with assms(1) have "agent + 1 = N" by simp
  with assms(2) show ?thesis by simp
qed

lemma minimax_returns:
  assumes agents: "\<forall>s. getNumAgents self s = N" and pos: "0 < N"
  shows "agent < N \<Longrightarrow> depth \<le> getTreeDepth self
    \<Longrightarrow> nat (getTreeDepth self - depth) * N - agent < fuel
    \<Longrightarrow> (\<exists>r t. MinimaxAgent_maxValue fuel self s agent depth = Some (Inr (r, t)))
      \<and> (\<exists>r t. MinimaxAgent_minValue fuel self s agent depth = Some (Inr (r, t)))"
proof (induction fuel arbitrary: s agent depth)
  case 0
  then show ?case by simp
next
  case (Suc fuel)
  let ?acts = "removeStop (getLegalActions self s agent)"
  let ?next = "(agent + 1) mod N"
  let ?branch = "\<lambda>action.
      let successorGameState = generateSuccessor self s agent action in
      case nextAgent_of agent (getNumAgents self s) of
        Inl e \<Rightarrow> Some (Inl e)
      | Inr nextAgent \<Rightarrow>
          logged [Expanded s agent action]
            (value_of
               (if nextAgent = 0 then
                  MinimaxAgent_maxValue fuel self successorGameState nextAgent (depth + 1)
                else
                  MinimaxAgent_minValue fuel self successorGameState nextAgent depth))"
  show ?case
  proof (cases "depth = getTreeDepth self \<or> ?acts = []")
    case True
    then show ?thesis by auto
  next
    case False
    then have lt: "depth < getTreeDepth self"
      using Suc.prems(2) by simp
    have na: "nextAgent_of agent (getNumAgents self s) = Inr ?next"
      using agents pos by (simp add: nextAgent_of_def)
    have branch: "\<exists>v t. ?branch x = Some (Inr (v, t))" for x
    proof (cases "?next = 0")
      case True
      with Suc.prems(1) have wrap: "agent + 1 = N"
        using wrap_zero [of agent N] by simp
      have "nat (getTreeDepth self - depth) = Suc (nat (getTreeDepth self - (depth + 1)))"
        using lt by simp
      then have "nat (getTreeDepth self - (depth + 1)) * N - 0 < fuel"
        using Suc.prems(3) wrap by simp
      with Suc.IH [of 0 "depth + 1" "generateSuccessor self s agent x"] pos lt
      obtain r t where "MinimaxAgent_maxValue fuel self (generateSuccessor self s agent x)
            0 (depth + 1) = Some (Inr (r, t))"
        by auto
      with na True show ?thesis
        by (cases r) (simp add: Let_def)
    next
      case False
      with Suc.prems(1) have step: "?next = agent + 1" "agent + 1 < N"
        using wrap_nonzero [of agent N] by simp_all
      have "1 \<le> nat (getTreeDepth self - depth)"
        using lt by linarith
      then have "1 * N \<le> nat (getTreeDepth self - depth) * N"
        by (rule mult_le_mono1)
      then have "N \<le> nat (getTreeDepth self - depth) * N"
        by simp
      with Suc.prems(3) step have "nat (getTreeDepth self - depth) * N - (agent + 1) < fuel"
        by linarith
      with Suc.IH [of "agent + 1" depth "generateSuccessor self s agent x"] step Suc.prems(2)
      obtain r t where "MinimaxAgent_minValue fuel self (generateSuccessor self s agent x)
            (agent + 1) depth = Some (Inr (r, t))"
        by auto
      with na False step show ?thesis
        by (cases r) (simp add: Let_def)
    qed
    then have all: "\<forall>a\<in>set ?acts. \<exists>v t. ?branch a = Some (Inr (v, t))"
      by blast
    from minimax_max_loop_returns [OF all] minimax_min_loop_returns [OF all] False
    show ?thesis
      by (simp add: Let_def del: minimax_max_loop.simps minimax_min_loop.simps)
  qed
qed

text \<open>
  C3. Whenever the root call of the minimax agent returns a value and an action, the root
  call of the alpha-beta agent, with the window from \<^verbatim>\<open>-inf\<close> to \<^verbatim>\<open>inf\<close>,
  the same state, tree depth, evaluation function and fuel, returns the same value and the
  same action, ties or not; so do the two \<open>getAction\<close>. And the minimax root call does
  return when the number of agents is a positive constant of the game, the tree depth is
  not negative and the fuel exceeds their product.
\<close>

theorem alphabeta_agrees_with_minimax:
  "(\<forall>v a t. MinimaxAgent_maxValue fuel self gameState 0 0 = Some (Inr ((v, a), t)) \<longrightarrow>
      (\<exists>t'. AlphaBetaAgent_maxValue fuel self gameState 0 0 NegInf PosInf
               = Some (Inr ((v, a), t')))
      \<and> MinimaxAgent_getAction fuel self gameState = Some (Inr (a, t))
      \<and> (\<exists>t'. AlphaBetaAgent_getAction fuel self gameState = Some (Inr (a, t'))))
   \<and> ((\<forall>s. getNumAgents self s = N) \<and> 0 < N \<and> 0 \<le> getTreeDepth self
        \<and> nat (getTreeDepth self) * N < fuel \<longrightarrow>
      (\<exists>v a t. MinimaxAgent_maxValue fuel self gameState 0 0 = Some (Inr ((v, a), t))))"
proof (intro conjI allI impI)
  fix v a t
  assume mm: "MinimaxAgent_maxValue fuel self gameState 0 0 = Some (Inr ((v, a), t))"
  from alphabeta_root [OF mm]
  show ab: "\<exists>t'. AlphaBetaAgent_maxValue fuel self gameState 0 0 NegInf PosInf
      = Some (Inr ((v, a), t'))" .
  from mm show "MinimaxAgent_getAction fuel self gameState = Some (Inr (a, t))"
    by (simp add: MinimaxAgent_getAction_def)
  from ab show "\<exists>t'. AlphaBetaAgent_getAction fuel self gameState = Some (Inr (a, t'))"
    by (auto simp: AlphaBetaAgent_getAction_def)
next
  assume h: "(\<forall>s. getNumAgents self s = N) \<and> 0 < N \<and> 0 \<le> getTreeDepth self
      \<and> nat (getTreeDepth self) * N < fuel"
  then have "\<exists>r t. MinimaxAgent_maxValue fuel self gameState 0 0 = Some (Inr (r, t))"
    using minimax_returns [of self N 0 0 fuel gameState] by simp
  then show "\<exists>v a t. MinimaxAgent_maxValue fuel self gameState 0 0 = Some (Inr ((v, a), t))"
    by auto
qed


theorem alphabeta_agrees_with_minimax_witness:
  "MinimaxAgent_maxValue (Suc (Suc (Suc 0))) (two_ply_game (Fin \<circ> leaf_values)) [] 0 0
     = Some (Inr ((Fin 3, Some WEST),
         [Expanded [] 0 WEST, Expanded [WEST] 1 WEST, Evaluated [WEST, WEST],
          Expanded [WEST] 1 EAST, Evaluated [WEST, EAST],
          Expanded [] 0 EAST, Expanded [EAST] 1 WEST, Evaluated [EAST, WEST],
          Expanded [EAST] 1 EAST, Evaluated [EAST, EAST]]))
   \<and> (\<exists>t'. AlphaBetaAgent_maxValue (Suc (Suc (Suc 0))) (two_ply_game (Fin \<circ> leaf_values)) [] 0 0
              NegInf PosInf = Some (Inr ((Fin 3, Some WEST), t')))
   \<and> (\<exists>t'. AlphaBetaAgent_getAction (Suc (Suc (Suc 0))) (two_ply_game (Fin \<circ> leaf_values)) []
              = Some (Inr (Some WEST, t')))
   \<and> (\<forall>s. getNumAgents (two_ply_game (Fin \<circ> leaf_values)) s = 2)
   \<and> 0 \<le> getTreeDepth (two_ply_game (Fin \<circ> leaf_values))
   \<and> nat (getTreeDepth (two_ply_game (Fin \<circ> leaf_values))) * 2 < Suc (Suc (Suc 0))
   \<and> (\<exists>v a t. MinimaxAgent_maxValue (Suc (Suc (Suc 0))) (two_ply_game (Fin \<circ> leaf_values))
                  [] 0 0 = Some (Inr ((v, a), t)))"
proof -
  let ?G = "two_ply_game (Fin \<circ> leaf_values)"
  have mm: "MinimaxAgent_maxValue (Suc (Suc (Suc 0))) ?G [] 0 0
      = Some (Inr ((Fin 3, Some WEST),
          [Expanded [] 0 WEST, Expanded [WEST] 1 WEST, Evaluated [WEST, WEST],
           Expanded [WEST] 1 EAST, Evaluated [WEST, EAST],
           Expanded [] 0 EAST, Expanded [EAST] 1 WEST, Evaluated [EAST, WEST],
           Expanded [EAST] 1 EAST, Evaluated [EAST, EAST]]))"
    by (simp add: two_ply_game_def removeStop_def nextAgent_of_def leaf_values_def
        less_score_def Let_def)
  have game: "(\<forall>s. getNumAgents ?G s = 2) \<and> 0 < (2::nat) \<and> 0 \<le> getTreeDepth ?G
      \<and> nat (getTreeDepth ?G) * 2 < Suc (Suc (Suc 0))"
    by (simp add: two_ply_game_def)
  note inst = alphabeta_agrees_with_minimax [of "Suc (Suc (Suc 0))" ?G "[]" 2]
  from inst mm have "(\<exists>t'. AlphaBetaAgent_maxValue (Suc (Suc (Suc 0))) ?G [] 0 0 NegInf PosInf
        = Some (Inr ((Fin 3, Some WEST), t')))
      \<and> (\<exists>t'. AlphaBetaAgent_getAction (Suc (Suc (Suc 0))) ?G [] = Some (Inr (Some WEST, t')))"
    by blast
  moreover from inst game
  have "\<exists>v a t. MinimaxAgent_maxValue (Suc (Suc (Suc 0))) ?G [] 0 0 = Some (Inr ((v, a), t))"
    by blast
  ultimately show ?thesis
    using mm game by blast
qed

section \<open>Properties of breadth-first search\<close>

subsection \<open>Paths and the invariant\<close>


lemma path_snocD:
  assumes "path P s (acts @ [a]) t"
  shows "\<exists>u c. path P s acts u \<and> (t, a, c) \<in> set (successorStates P u)"
  using assms
proof (cases rule: path.cases)
  case path_nil
  then show ?thesis by simp
next
  case (path_snoc actions u a' c)
  from path_snoc(1) have "acts = actions" "a = a'" by simp_all
  with path_snoc(2,3) show ?thesis by blast
qed

lemma path_SucD:
  assumes "path P s acts t" "length acts = Suc k"
  shows "\<exists>acts' a u c. acts = acts' @ [a] \<and> length acts' = k \<and> path P s acts' u
    \<and> (t, a, c) \<in> set (successorStates P u)"
  using assms(1)
proof (cases rule: path.cases)
  case path_nil
  with assms(2) show ?thesis by simp
next
  case (path_snoc actions u a c)
  from path_snoc(1) assms(2) have "length actions = k" by simp
  with path_snoc have "acts = actions @ [a] \<and> length actions = k \<and> path P s actions u
    \<and> (t, a, c) \<in> set (successorStates P u)"
    by simp
  then show ?thesis by (intro exI)
qed

lemma level_Cons [simp]: "level (node # frontier) = length (fst (snd node))"
  by (simp add: level_def)

lemma level_Nil [simp]: "level [] = 0"
  by (simp add: level_def)

lemma bfs_inv_path:
  "bfs_inv P F R \<Longrightarrow> node \<in> set F \<Longrightarrow> path P (startingState P) (fst (snd node)) (fst node)"
  by (simp add: bfs_inv_def)

lemma bfs_inv_sorted:
  "bfs_inv P F R \<Longrightarrow> sorted (map (\<lambda>node. length (fst (snd node))) F)"
  by (simp add: bfs_inv_def)

lemma bfs_inv_bound:
  "bfs_inv P F R \<Longrightarrow> node \<in> set F \<Longrightarrow> length (fst (snd node)) \<le> Suc (level F)"
  by (simp add: bfs_inv_def)

lemma bfs_inv_no_goal:
  "bfs_inv P F R \<Longrightarrow> r \<in> set R \<Longrightarrow> \<not> isGoal P r"
  by (simp add: bfs_inv_def)

lemma bfs_inv_start:
  "bfs_inv P F R \<Longrightarrow> startingState P \<in> set R \<union> fst ` set F"
  by (simp add: bfs_inv_def)

lemma bfs_inv_succ:
  "bfs_inv P F R \<Longrightarrow> r \<in> set R \<Longrightarrow> child \<in> set (successorStates P r)
   \<Longrightarrow> fst child \<in> set R \<union> fst ` set F"
  by (simp add: bfs_inv_def)

lemma bfs_inv_below:
  "bfs_inv P F R \<Longrightarrow> path P (startingState P) acts t \<Longrightarrow> length acts < level F
   \<Longrightarrow> t \<in> set R"
  unfolding bfs_inv_def by (elim conjE) (erule allE [of _ acts], erule allE [of _ t], simp)


lemma bfs_inv_at:
  assumes "bfs_inv P F R" "path P (startingState P) acts t" "length acts = level F" "F \<noteq> []"
  shows "t \<in> set R \<or> (\<exists>node\<in>set F. fst node = t \<and> length (fst (snd node)) = level F)"
proof -
  from assms(1) have "\<forall>actions t. path P (startingState P) actions t
         \<and> length actions = level F \<and> F \<noteq> [] \<longrightarrow>
         t \<in> set R \<or> (\<exists>node\<in>set F. fst node = t \<and> length (fst (snd node)) = level F)"
    unfolding bfs_inv_def by (elim conjE)
  then have "path P (startingState P) acts t \<and> length acts = level F \<and> F \<noteq> [] \<longrightarrow>
         t \<in> set R \<or> (\<exists>node\<in>set F. fst node = t \<and> length (fst (snd node)) = level F)"
    by (elim allE)
  with assms(2-4) show ?thesis by simp
qed

lemma bfs_invI:
  assumes "\<And>node. node \<in> set F \<Longrightarrow> path P (startingState P) (fst (snd node)) (fst node)"
    and "sorted (map (\<lambda>node. length (fst (snd node))) F)"
    and "\<And>node. node \<in> set F \<Longrightarrow> length (fst (snd node)) \<le> Suc (level F)"
    and "\<And>r. r \<in> set R \<Longrightarrow> \<not> isGoal P r"
    and "startingState P \<in> set R \<union> fst ` set F"
    and "\<And>r child. r \<in> set R \<Longrightarrow> child \<in> set (successorStates P r)
          \<Longrightarrow> fst child \<in> set R \<union> fst ` set F"
    and "\<And>acts t. path P (startingState P) acts t \<Longrightarrow> length acts < level F \<Longrightarrow> t \<in> set R"
    and "\<And>acts t. path P (startingState P) acts t \<Longrightarrow> length acts = level F \<Longrightarrow> F \<noteq> []
          \<Longrightarrow> t \<in> set R \<or> (\<exists>node\<in>set F. fst node = t \<and> length (fst (snd node)) = level F)"
  shows "bfs_inv P F R"
  unfolding bfs_inv_def
proof (intro conjI ballI allI impI)
  fix node assume "node \<in> set F"
  then show "path P (startingState P) (fst (snd node)) (fst node)" by (rule assms(1))
next
  show "sorted (map (\<lambda>node. length (fst (snd node))) F)" by (rule assms(2))
next
  fix node assume "node \<in> set F"
  then show "length (fst (snd node)) \<le> Suc (level F)" by (rule assms(3))
next
  fix r assume "r \<in> set R"
  then show "\<not> isGoal P r" by (rule assms(4))
next
  show "startingState P \<in> set R \<union> fst ` set F" by (rule assms(5))
next
  fix r child assume "r \<in> set R" "child \<in> set (successorStates P r)"
  then show "fst child \<in> set R \<union> fst ` set F" by (rule assms(6))
next
  fix acts t assume "path P (startingState P) acts t \<and> length acts < level F"
  then show "t \<in> set R" using assms(7) [of acts t] by simp
next
  fix acts t
  assume "path P (startingState P) acts t \<and> length acts = level F \<and> F \<noteq> []"
  then show "t \<in> set R \<or> (\<exists>node\<in>set F. fst node = t \<and> length (fst (snd node)) = level F)"
    using assms(8) [of acts t] by simp
qed

lemma reached_closed:
  assumes "startingState P \<in> set R"
    and "\<And>r child. r \<in> set R \<Longrightarrow> child \<in> set (successorStates P r) \<Longrightarrow> fst child \<in> set R"
    and "path P (startingState P) acts t"
  shows "t \<in> set R"
  using assms(3)
proof (induction rule: path.induct)
  case path_nil
  show ?case by (rule assms(1))
next
  case (path_snoc actions u t a c)
  from assms(2) [OF path_snoc.IH path_snoc.hyps(2)] show ?case by simp
qed

lemma bfs_inv_empty:
  assumes inv: "bfs_inv P [] R" and p: "path P (startingState P) acts t"
  shows "\<not> isGoal P t"
proof -
  have "t \<in> set R"
  proof (rule reached_closed [OF _ _ p])
    show "startingState P \<in> set R"
      using bfs_inv_start [OF inv] by simp
    show "fst child \<in> set R" if "r \<in> set R" "child \<in> set (successorStates P r)" for r child
      using bfs_inv_succ [OF inv that] by simp
  qed
  then show ?thesis by (rule bfs_inv_no_goal [OF inv])
qed

lemma bfs_inv_goal:
  assumes inv: "bfs_inv P (node # F) R"
    and goal: "path P (startingState P) acts' g'" "isGoal P g'"
  shows "length (fst (snd node)) \<le> length acts'"
proof (rule ccontr)
  assume "\<not> length (fst (snd node)) \<le> length acts'"
  then have "length acts' < level (node # F)" by simp
  with inv goal(1) have "g' \<in> set R"
    by (rule bfs_inv_below)
  with inv have "\<not> isGoal P g'" by (rule bfs_inv_no_goal)
  with goal(2) show False by simp
qed


subsection \<open>One turn of the loop keeps the invariant\<close>


lemma level_le:
  assumes "sorted (map (\<lambda>node. length (fst (snd node))) F)" "node \<in> set F"
  shows "level F \<le> length (fst (snd node))"
  using assms by (cases F) auto

lemma level_mem:
  assumes "F \<noteq> []"
  shows "\<exists>node\<in>set F. level F = length (fst (snd node))"
  using assms by (cases F) auto

lemma bfs_step_below:
  assumes inv: "bfs_inv P (node # F) R"
    and R': "set R \<subseteq> set R'" "fst node \<in> set R'"
    and F': "set F \<subseteq> set F'"
    and sorted': "sorted (map (\<lambda>node. length (fst (snd node))) F')"
    and range: "\<And>n. n \<in> set F' \<Longrightarrow> length (fst (snd node)) \<le> length (fst (snd n))
        \<and> length (fst (snd n)) \<le> Suc (length (fst (snd node)))"
    and p: "path P (startingState P) acts t" "length acts < level F'"
  shows "t \<in> set R'"
proof (cases "length acts < length (fst (snd node))")
  case True
  then have "length acts < level (node # F)" by simp
  with inv p(1) have "t \<in> set R" by (rule bfs_inv_below)
  with R'(1) show ?thesis by auto
next
  case False
  from p(2) have ne: "F' \<noteq> []" by (cases F') auto
  then obtain h where h: "h \<in> set F'" "level F' = length (fst (snd h))"
    using level_mem by blast
  with range [of h] p(2) False
  have len: "length acts = length (fst (snd node))"
    and lev: "level F' = Suc (length (fst (snd node)))"
    by auto
  from len have "length acts = level (node # F)" by simp
  from bfs_inv_at [OF inv p(1) this] have "t \<in> set R
      \<or> (\<exists>n\<in>set (node # F). fst n = t \<and> length (fst (snd n)) = level (node # F))"
    by simp
  then show ?thesis
  proof (elim disjE bexE conjE)
    assume "t \<in> set R"
    with R'(1) show ?thesis by auto
  next
    fix n assume n: "n \<in> set (node # F)" "fst n = t"
      "length (fst (snd n)) = level (node # F)"
    show ?thesis
    proof (cases "n = node")
      case True
      with n(2) R'(2) show ?thesis by simp
    next
      case False
      with n(1) F' have "n \<in> set F'" by auto
      with sorted' have "level F' \<le> length (fst (snd n))" by (rule level_le)
      with n(3) lev show ?thesis by simp
    qed
  qed
qed

lemma bfs_step_at:
  assumes inv: "bfs_inv P (node # F) R"
    and R': "set R \<subseteq> set R'" "fst node \<in> set R'"
    and F': "set F \<subseteq> set F'"
    and sorted': "sorted (map (\<lambda>node. length (fst (snd node))) F')"
    and range: "\<And>n. n \<in> set F' \<Longrightarrow> length (fst (snd node)) \<le> length (fst (snd n))
        \<and> length (fst (snd n)) \<le> Suc (length (fst (snd node)))"
    and succ': "\<And>r child. r \<in> set R' \<Longrightarrow> child \<in> set (successorStates P r)
        \<Longrightarrow> fst child \<in> set R' \<union> fst ` set F'"
    and p: "path P (startingState P) acts t" "length acts = level F'" "F' \<noteq> []"
  shows "t \<in> set R'
      \<or> (\<exists>n\<in>set F'. fst n = t \<and> length (fst (snd n)) = level F')"
proof -
  from p(3) obtain h where h: "h \<in> set F'" "level F' = length (fst (snd h))"
    using level_mem by blast
  show ?thesis
  proof (cases "level F' = length (fst (snd node))")
    case True
    with p(2) have "length acts = level (node # F)" by simp
    from bfs_inv_at [OF inv p(1) this] have "t \<in> set R
        \<or> (\<exists>n\<in>set (node # F). fst n = t \<and> length (fst (snd n)) = level (node # F))"
      by simp
    then show ?thesis
    proof (elim disjE bexE conjE)
      assume "t \<in> set R"
      with R'(1) show ?thesis by auto
    next
      fix n assume n: "n \<in> set (node # F)" "fst n = t"
        "length (fst (snd n)) = level (node # F)"
      show ?thesis
      proof (cases "n = node")
        case True
        with n(2) R'(2) show ?thesis by simp
      next
        case False
        with n(1) F' have "n \<in> set F'" by auto
        moreover from n(3) \<open>level F' = length (fst (snd node))\<close>
        have "length (fst (snd n)) = level F'" by simp
        ultimately show ?thesis using n(2) by blast
      qed
    qed
  next
    case False
    with range [of h] h have lev: "level F' = Suc (length (fst (snd node)))"
      by auto
    with p(2) have "length acts = Suc (length (fst (snd node)))" by simp
    from path_SucD [OF p(1) this] obtain acts' a u c where
      pre: "length acts' = length (fst (snd node))" "path P (startingState P) acts' u"
        "(t, a, c) \<in> set (successorStates P u)"
      by blast
    from pre(1) lev have "length acts' < level F'" by simp
    with inv R' F' sorted' range pre(2) have "u \<in> set R'"
      by (rule bfs_step_below)
    from succ' [OF this pre(3)] have "t \<in> set R' \<union> fst ` set F'" by simp
    then show ?thesis
    proof
      assume "t \<in> set R'"
      then show ?thesis by simp
    next
      assume "t \<in> fst ` set F'"
      then obtain n where n: "n \<in> set F'" "fst n = t" by auto
      from sorted' n(1) have "level F' \<le> length (fst (snd n))" by (rule level_le)
      with range [of n] n(1) lev have "length (fst (snd n)) = level F'" by simp
      with n show ?thesis by blast
    qed
  qed
qed



lemma bfs_inv_range:
  assumes inv: "bfs_inv P (node # F) R" and n: "n \<in> set F"
  shows "length (fst (snd node)) \<le> length (fst (snd n))
    \<and> length (fst (snd n)) \<le> Suc (length (fst (snd node)))"
proof
  from bfs_inv_sorted [OF inv] n show "length (fst (snd node)) \<le> length (fst (snd n))"
    by simp
  from bfs_inv_bound [OF inv, of n] n show "length (fst (snd n)) \<le> Suc (length (fst (snd node)))"
    by simp
qed

lemma bfs_inv_skip:
  assumes inv: "bfs_inv P (node # F) R" and seen: "fst node \<in> set R"
  shows "bfs_inv P F R"
proof (rule bfs_invI)
  fix n assume "n \<in> set F"
  then show "path P (startingState P) (fst (snd n)) (fst n)"
    using bfs_inv_path [OF inv, of n] by simp
next
  from bfs_inv_sorted [OF inv] show "sorted (map (\<lambda>node. length (fst (snd node))) F)"
    by simp
next
  fix n assume n: "n \<in> set F"
  with bfs_inv_sorted [OF inv] have "level F \<le> length (fst (snd n))"
    by (intro level_le) simp_all
  moreover from n have "F \<noteq> []" by auto
  then obtain h where "h \<in> set F" "level F = length (fst (snd h))"
    using level_mem by blast
  with bfs_inv_range [OF inv, of h] have "length (fst (snd node)) \<le> level F" by simp
  ultimately show "length (fst (snd n)) \<le> Suc (level F)"
    using bfs_inv_range [OF inv n] by simp
next
  fix r assume "r \<in> set R"
  then show "\<not> isGoal P r" by (rule bfs_inv_no_goal [OF inv])
next
  from bfs_inv_start [OF inv] seen show "startingState P \<in> set R \<union> fst ` set F"
    by auto
next
  fix r child assume "r \<in> set R" "child \<in> set (successorStates P r)"
  from bfs_inv_succ [OF inv this] seen show "fst child \<in> set R \<union> fst ` set F"
    by auto
next
  fix acts t assume "path P (startingState P) acts t" "length acts < level F"
  with inv _ seen _ bfs_inv_sorted [OF inv, simplified, THEN conjunct2] _
  show "t \<in> set R"
    by (rule bfs_step_below) (simp_all add: bfs_inv_range [OF inv])
next
  fix acts t assume p: "path P (startingState P) acts t" "length acts = level F" "F \<noteq> []"
  show "t \<in> set R \<or> (\<exists>n\<in>set F. fst n = t \<and> length (fst (snd n)) = level F)"
  proof (rule bfs_step_at [OF inv _ seen _ _ _ _ p])
    show "sorted (map (\<lambda>node. length (fst (snd node))) F)"
      using bfs_inv_sorted [OF inv] by simp
    show "fst child \<in> set R \<union> fst ` set F"
      if "r \<in> set R" "child \<in> set (successorStates P r)" for r child
      using bfs_inv_succ [OF inv that] seen by auto
  qed (simp_all add: bfs_inv_range [OF inv])
qed

lemma childNode_simps [simp]:
  "fst (childNode node child) = fst child"
  "fst (snd (childNode node child)) = fst (snd node) @ [fst (snd child)]"
  by (simp_all add: childNode_def)

lemma bfs_inv_expand:
  assumes inv: "bfs_inv P (node # F) R" and new: "fst node \<notin> set R"
    and no_goal: "\<not> isGoal P (fst node)"
  shows "bfs_inv P (F @ map (childNode node) (successorStates P (fst node))) (R @ [fst node])"
    (is "bfs_inv P ?F' ?R'")
proof -
  let ?len = "\<lambda>node :: ('a, 'b) node. length (fst (snd node))"
  let ?C = "map (childNode node) (successorStates P (fst node))"
  have range: "?len node \<le> ?len n \<and> ?len n \<le> Suc (?len node)" if "n \<in> set ?F'" for n
  proof (cases "n \<in> set F")
    case True
    then show ?thesis by (rule bfs_inv_range [OF inv])
  next
    case False
    with that have "n \<in> set ?C" by simp
    then show ?thesis by auto
  qed
  have sorted': "sorted (map ?len ?F')"
  proof -
    have "sorted (map ?len F)" using bfs_inv_sorted [OF inv] by simp
    moreover have "sorted (map ?len ?C)"
      by (simp add: sorted_wrt_iff_nth_less comp_def sorted_iff_nth_mono)
    moreover have "\<forall>x\<in>set (map ?len F). \<forall>y\<in>set (map ?len ?C). x \<le> y"
      using bfs_inv_range [OF inv] by auto
    ultimately show ?thesis
      by (simp add: sorted_append)
  qed
  have succ': "fst child \<in> set ?R' \<union> fst ` set ?F'"
    if "r \<in> set ?R'" "child \<in> set (successorStates P r)" for r child
  proof (cases "r = fst node")
    case True
    with that(2) have "childNode node child \<in> set ?C" by simp
    then have "fst (childNode node child) \<in> fst ` set ?F'" by (intro imageI) simp
    then show ?thesis by simp
  next
    case False
    with that(1) have "r \<in> set R" by simp
    from bfs_inv_succ [OF inv this that(2)] show ?thesis by auto
  qed
  show ?thesis
  proof (rule bfs_invI)
    fix n assume n: "n \<in> set ?F'"
    show "path P (startingState P) (fst (snd n)) (fst n)"
    proof (cases "n \<in> set F")
      case True
      then show ?thesis using bfs_inv_path [OF inv, of n] by simp
    next
      case False
      with n obtain child where c: "child \<in> set (successorStates P (fst node))"
        "n = childNode node child"
        by auto
      obtain t a k where child: "child = (t, a, k)" by (cases child)
      have "path P (startingState P) (fst (snd node)) (fst node)"
        using bfs_inv_path [OF inv, of node] by simp
      from path_snoc [OF this c(1) [unfolded child]] show ?thesis
        by (simp add: c(2) child)
    qed
  next
    show "sorted (map ?len ?F')" by (rule sorted')
  next
    fix n assume n: "n \<in> set ?F'"
    then have "?F' \<noteq> []" by auto
    then obtain h where "h \<in> set ?F'" "level ?F' = ?len h"
      using level_mem by blast
    with range [of h] have "?len node \<le> level ?F'" by simp
    with range [OF n] show "?len n \<le> Suc (level ?F')" by simp
  next
    fix r assume "r \<in> set ?R'"
    with no_goal bfs_inv_no_goal [OF inv] show "\<not> isGoal P r" by auto
  next
    from bfs_inv_start [OF inv] show "startingState P \<in> set ?R' \<union> fst ` set ?F'"
      by auto
  next
    fix r child assume "r \<in> set ?R'" "child \<in> set (successorStates P r)"
    then show "fst child \<in> set ?R' \<union> fst ` set ?F'" by (rule succ')
  next
    fix acts t assume p: "path P (startingState P) acts t" "length acts < level ?F'"
    show "t \<in> set ?R'"
      by (rule bfs_step_below [OF inv _ _ _ sorted' range p]) auto
  next
    fix acts t assume p: "path P (startingState P) acts t" "length acts = level ?F'" "?F' \<noteq> []"
    show "t \<in> set ?R' \<or> (\<exists>n\<in>set ?F'. fst n = t \<and> ?len n = level ?F')"
      by (rule bfs_step_at [OF inv _ _ _ sorted' range succ' p]) auto
  qed
qed


subsection \<open>The search ends with a shortest path\<close>


lemma path_Nil_iff: "path P s [] t \<longleftrightarrow> t = s"
proof
  assume "path P s [] t"
  then show "t = s" by (cases rule: path.cases) simp_all
next
  assume "t = s"
  then show "path P s [] t" by (simp add: path_nil)
qed

lemma bfs_inv_initial: "bfs_inv P [(startingState P, [], 0)] []"
  by (rule bfs_invI) (auto simp: path_Nil_iff)

lemma bfs_loop_Nil: "bfs_loop P [] R = Some None"
  by (subst bfs_loop.simps) simp

lemma bfs_loop_Cons:
  "bfs_loop P (node # F) R =
     (if fst node \<in> set R then bfs_loop P F R
      else if isGoal P (fst node) then Some (Some (fst (snd node)))
      else bfs_loop P (F @ map (childNode node) (successorStates P (fst node))) (R @ [fst node]))"
  by (subst bfs_loop.simps) simp

lemma bfs_loop_correct:
  assumes fin: "finite S"
    and closed: "\<And>s child. s \<in> S \<Longrightarrow> child \<in> set (successorStates P s) \<Longrightarrow> fst child \<in> S"
  shows "bfs_inv P F R \<Longrightarrow> fst ` set F \<subseteq> S \<Longrightarrow> set R \<subseteq> S \<Longrightarrow> bfs_post P (bfs_loop P F R)"
proof (induction "card (S - set R)" arbitrary: F R rule: less_induct)
  case less
  from less.prems show ?case
  proof (induction F)
    case Nil
    then show ?case
      using bfs_inv_empty [of P R] by (auto simp: bfs_post_def bfs_loop_Nil)
  next
    case (Cons node F)
    show ?case
    proof (cases "fst node \<in> set R")
      case True
      from Cons.prems(1) True have "bfs_inv P F R" by (rule bfs_inv_skip)
      with Cons.IH Cons.prems(2,3) have "bfs_post P (bfs_loop P F R)" by simp
      with True show ?thesis by (simp add: bfs_loop_Cons)
    next
      case new: False
      show ?thesis
      proof (cases "isGoal P (fst node)")
        case True
        have "path P (startingState P) (fst (snd node)) (fst node)"
          using bfs_inv_path [OF Cons.prems(1), of node] by simp
        moreover have "length (fst (snd node)) \<le> length acts'"
          if "path P (startingState P) acts' g'" "isGoal P g'" for acts' g'
          using Cons.prems(1) that by (rule bfs_inv_goal)
        ultimately show ?thesis
          using True new by (auto simp: bfs_post_def bfs_loop_Cons)
      next
        case False
        let ?F' = "F @ map (childNode node) (successorStates P (fst node))"
        let ?R' = "R @ [fst node]"
        from Cons.prems(2) have inS: "fst node \<in> S" by simp
        have "S - set ?R' \<subset> S - set R"
          using inS new by auto
        then have "card (S - set ?R') < card (S - set R)"
          using fin by (intro psubset_card_mono) auto
        moreover from Cons.prems(1) new False have "bfs_inv P ?F' ?R'"
          by (rule bfs_inv_expand)
        moreover have "fst ` set ?F' \<subseteq> S"
          using Cons.prems(2) closed [OF inS] by auto
        moreover have "set ?R' \<subseteq> S"
          using Cons.prems(3) inS by simp
        ultimately have "bfs_post P (bfs_loop P ?F' ?R')"
          by (rule less.hyps)
        with new False show ?thesis by (simp add: bfs_loop_Cons)
      qed
    qed
  qed
qed



lemma hops_run: "breadthFirstSearch hops = Some (Some [Jump, Jump])"
  by (simp add: breadthFirstSearch_def hops_def bfs_loop_Cons bfs_loop_Nil childNode_def)

lemma hops_no_goal_run: "breadthFirstSearch hops_no_goal = Some None"
  by (simp add: breadthFirstSearch_def hops_no_goal_def hops_def bfs_loop_Cons bfs_loop_Nil childNode_def)

text \<open>
  C5. Let the states that can be met from the start lie in a finite set closed under the
  successor steps. Then \<open>breadthFirstSearch\<close> ends. If some path from the start ends
  in a goal, it returns the actions of a path from the start to a goal, and no path from
  the start to any goal has fewer actions; if no path ends in a goal, it returns
  \<^verbatim>\<open>None\<close>.
\<close>

theorem breadthFirstSearch_shortest:
  assumes "finite S" "startingState P \<in> S"
    and "\<forall>s\<in>S. \<forall>child\<in>set (successorStates P s). fst child \<in> S"
  shows "(\<exists>result. breadthFirstSearch P = Some result)
       \<and> ((\<exists>acts g. path P (startingState P) acts g \<and> isGoal P g) \<longrightarrow>
            (\<exists>acts g. breadthFirstSearch P = Some (Some acts)
               \<and> path P (startingState P) acts g \<and> isGoal P g
               \<and> (\<forall>acts' g'. path P (startingState P) acts' g' \<and> isGoal P g'
                     \<longrightarrow> length acts \<le> length acts')))
       \<and> ((\<forall>acts g. path P (startingState P) acts g \<longrightarrow> \<not> isGoal P g) \<longrightarrow>
            breadthFirstSearch P = Some None)"
proof -
  have post: "bfs_post P (breadthFirstSearch P)"
  proof (cases "isGoal P (startingState P)")
    case True
    then have "breadthFirstSearch P = Some (Some [])"
      by (simp add: breadthFirstSearch_def)
    moreover have "path P (startingState P) [] (startingState P)"
      by (rule path_nil)
    ultimately show ?thesis
      using True unfolding bfs_post_def by (intro disjI1 exI [of _ "[]"] exI [of _ "startingState P"]) simp
  next
    case False
    have "bfs_post P (bfs_loop P [(startingState P, [], 0)] [])"
    proof (rule bfs_loop_correct [OF assms(1)])
      show "fst child \<in> S" if "s \<in> S" "child \<in> set (successorStates P s)" for s child
        using assms(3) that by blast
    qed (simp_all add: bfs_inv_initial assms(2))
    with False show ?thesis by (simp add: breadthFirstSearch_def)
  qed
  show ?thesis
  proof (intro conjI impI)
    from post show "\<exists>result. breadthFirstSearch P = Some result"
      unfolding bfs_post_def by blast
  next
    assume "\<exists>acts g. path P (startingState P) acts g \<and> isGoal P g"
    with post show "\<exists>acts g. breadthFirstSearch P = Some (Some acts)
        \<and> path P (startingState P) acts g \<and> isGoal P g
        \<and> (\<forall>acts' g'. path P (startingState P) acts' g' \<and> isGoal P g'
              \<longrightarrow> length acts \<le> length acts')"
      unfolding bfs_post_def by blast
  next
    assume "\<forall>acts g. path P (startingState P) acts g \<longrightarrow> \<not> isGoal P g"
    with post show "breadthFirstSearch P = Some None"
      unfolding bfs_post_def by blast
  qed
qed


theorem breadthFirstSearch_shortest_witness:
  "finite {0..5::nat}
   \<and> startingState hops \<in> {0..5}
   \<and> path hops (startingState hops) [Jump, Jump] 4
   \<and> isGoal hops 4
   \<and> (\<exists>acts g. breadthFirstSearch hops = Some (Some acts)
         \<and> path hops (startingState hops) acts g \<and> isGoal hops g \<and> length acts \<le> 2)
   \<and> startingState hops_no_goal \<in> {0..5}
   \<and> breadthFirstSearch hops_no_goal = Some None"
proof -
  have fin: "finite {0..5::nat}" by simp
  have start: "startingState hops \<in> {0..5}" "startingState hops_no_goal \<in> {0..5}"
    by (simp_all add: hops_def hops_no_goal_def)
  have closed: "\<forall>s\<in>{0..5}. \<forall>child\<in>set (successorStates hops s). fst child \<in> {0..5}"
    by (auto simp: hops_def)
  have closed': "\<forall>s\<in>{0..5}. \<forall>child\<in>set (successorStates hops_no_goal s). fst child \<in> {0..5}"
    by (auto simp: hops_def hops_no_goal_def)
  have p0: "path hops (startingState hops) [] 0"
    by (simp add: hops_def path_nil)
  have "(2, Jump, 1) \<in> set (successorStates hops 0)"
    by (simp add: hops_def)
  from path_snoc [OF p0 this] have p1: "path hops (startingState hops) [Jump] 2"
    by simp
  have "(4, Jump, 1) \<in> set (successorStates hops 2)"
    by (simp add: hops_def)
  from path_snoc [OF p1 this] have p2: "path hops (startingState hops) [Jump, Jump] 4"
    by simp
  have goal: "isGoal hops 4"
    by (simp add: hops_def)
  from breadthFirstSearch_shortest [OF fin start(1) closed] p2 goal
  obtain acts g where found: "breadthFirstSearch hops = Some (Some acts)"
    "path hops (startingState hops) acts g" "isGoal hops g"
    and least: "\<forall>acts' g'. path hops (startingState hops) acts' g' \<and> isGoal hops g'
        \<longrightarrow> length acts \<le> length acts'"
    by blast
  from least p2 goal have "length acts \<le> length [Jump, Jump]"
    by blast
  then have short: "length acts \<le> 2" by simp
  have inside: "g \<in> {0..5}" if "path hops_no_goal (startingState hops_no_goal) acts g" for acts g
    using that
  proof (induction rule: path.induct)
    case path_nil
    show ?case by (rule start(2))
  next
    case (path_snoc actions u t a c)
    with closed' have "fst (t, a, c) \<in> {0..5}" by blast
    then show ?case by simp
  qed
  have "\<forall>acts g. path hops_no_goal (startingState hops_no_goal) acts g
      \<longrightarrow> \<not> isGoal hops_no_goal g"
  proof (intro allI impI)
    fix acts g assume "path hops_no_goal (startingState hops_no_goal) acts g"
    then have "g \<in> {0..5}" by (rule inside)
    then show "\<not> isGoal hops_no_goal g" by (simp add: hops_no_goal_def)
  qed
  with breadthFirstSearch_shortest [OF fin start(2) closed']
  have none: "breadthFirstSearch hops_no_goal = Some None"
    by blast
  from fin start p2 goal found short none show ?thesis
    by blast
qed

end
